theory Spec2Isabelle
  imports Main "HOL-Library.Sublist"
begin

section \<open>Text\<close>

text \<open>
  A Python \<open>str\<close> is a sequence of code points. The model covers the code points
  U+0000 .. U+00FF (\<open>Latin c\<close>, the character \<open>c\<close> read as its Latin-1 code point) and
  the two further characters the literals of \<^verbatim>\<open>app.py\<close> use: the rupee sign U+20B9 of the
  property-loss pattern and the en dash U+2013 of the section citations.
\<close>

datatype uchar = Latin char | Rupee | EnDash

type_synonym pystr = "uchar list"

definition str :: "string \<Rightarrow> pystr" where
  "str = map Latin"

text \<open>The code point of a character.\<close>

fun cp :: "uchar \<Rightarrow> nat" where
  "cp (Latin c) = of_char c"
| "cp Rupee = 8377"
| "cp EnDash = 8211"

text \<open>
  \<^verbatim>\<open>str.lower()\<close>, character by character. On this alphabet the characters with a
  lower-case partner are A-Z and U+00C0 .. U+00DE without the multiplication sign U+00D7;
  the partner is 32 code points up, which for these characters is bit 5 set.
\<close>

definition is_upper :: "uchar \<Rightarrow> bool" where
  "is_upper c = (let n = cp c in (65 \<le> n \<and> n \<le> 90) \<or> (192 \<le> n \<and> n \<le> 222 \<and> n \<noteq> 215))"

fun lower1 :: "uchar \<Rightarrow> uchar" where
  "lower1 (Latin (Char b0 b1 b2 b3 b4 b5 b6 b7)) =
     (if is_upper (Latin (Char b0 b1 b2 b3 b4 b5 b6 b7))
      then Latin (Char b0 b1 b2 b3 b4 True b6 b7)
      else Latin (Char b0 b1 b2 b3 b4 b5 b6 b7))"
| "lower1 Rupee = Rupee"
| "lower1 EnDash = EnDash"

definition lower :: "pystr \<Rightarrow> pystr" where
  "lower t = map lower1 t"

text \<open>\<^verbatim>\<open>p in t\<close> on strings: \<open>p\<close> occurs in \<open>t\<close> as a contiguous substring.\<close>

fun str_in :: "pystr \<Rightarrow> pystr \<Rightarrow> bool" where
  "str_in p [] = (p = [])"
| "str_in p (c # cs) = (prefix p (c # cs) \<or> str_in p cs)"

text \<open>\<^verbatim>\<open>sep.join(xs)\<close>.\<close>

fun join :: "pystr \<Rightarrow> pystr list \<Rightarrow> pystr" where
  "join sep [] = []"
| "join sep [x] = x"
| "join sep (x # y # ys) = x @ sep @ join sep (y # ys)"

section \<open>Character classes\<close>

definition is_space :: "uchar \<Rightarrow> bool" where
  "is_space c = (let n = cp c in (9 \<le> n \<and> n \<le> 13) \<or> (28 \<le> n \<and> n \<le> 32) \<or> n = 133 \<or> n = 160)"

definition is_digit :: "uchar \<Rightarrow> bool" where
  "is_digit c = (let n = cp c in 48 \<le> n \<and> n \<le> 57)"

definition is_alnum :: "uchar \<Rightarrow> bool" where
  "is_alnum c =
     (let n = cp c
      in (48 \<le> n \<and> n \<le> 57) \<or> (65 \<le> n \<and> n \<le> 90) \<or> (97 \<le> n \<and> n \<le> 122)
         \<or> n = 170 \<or> n = 178 \<or> n = 179 \<or> n = 181 \<or> n = 185 \<or> n = 186
         \<or> (188 \<le> n \<and> n \<le> 190) \<or> (192 \<le> n \<and> n \<le> 214) \<or> (216 \<le> n \<and> n \<le> 246)
         \<or> (248 \<le> n \<and> n \<le> 255))"

definition is_word :: "uchar \<Rightarrow> bool" where
  "is_word c = (is_alnum c \<or> c = Latin CHR ''_'')"

definition strip :: "pystr \<Rightarrow> pystr" where
  "strip s = rev (dropWhile is_space (rev (dropWhile is_space s)))"

section \<open>Regular expressions\<close>

datatype atom = Lit uchar | Range uchar uchar | Space | Digit | Word

datatype item = Chr uchar | InSet "atom list" | Any

datatype regex =
    Emp
  | One item
  | Rep bool nat "nat option" item
  | Seq regex regex
  | Alt regex regex
  | Opt regex
  | Grp nat regex
  | WordB
  | Ahead regex

fun upper1 :: "uchar \<Rightarrow> uchar" where
  "upper1 (Latin (Char b0 b1 b2 b3 b4 b5 b6 b7)) =
     (if is_upper (Latin (Char b0 b1 b2 b3 b4 False b6 b7))
      then Latin (Char b0 b1 b2 b3 b4 False b6 b7)
      else Latin (Char b0 b1 b2 b3 b4 b5 b6 b7))"
| "upper1 Rupee = Rupee"
| "upper1 EnDash = EnDash"

fun atom_match :: "bool \<Rightarrow> atom \<Rightarrow> uchar \<Rightarrow> bool" where
  "atom_match ic (Lit x) c = (if ic then lower1 c = lower1 x else c = x)"
| "atom_match ic (Range lo hi) c =
     (if ic then (cp lo \<le> cp (lower1 c) \<and> cp (lower1 c) \<le> cp hi)
               \<or> (cp lo \<le> cp (upper1 c) \<and> cp (upper1 c) \<le> cp hi)
      else cp lo \<le> cp c \<and> cp c \<le> cp hi)"
| "atom_match ic Space c = is_space c"
| "atom_match ic Digit c = is_digit c"
| "atom_match ic Word c = is_word c"

fun item_match :: "bool \<Rightarrow> item \<Rightarrow> uchar \<Rightarrow> bool" where
  "item_match ic (Chr x) c = (if ic then lower1 c = lower1 x else c = x)"
| "item_match ic (InSet as) c = (\<exists>a \<in> set as. atom_match ic a c)"
| "item_match ic Any c = (c \<noteq> Latin (CHR 0x0A))"

type_synonym groups = "nat \<rightharpoonup> pystr"

type_synonym mstate = "pystr \<times> pystr \<times> groups"

type_synonym cont = "pystr \<Rightarrow> pystr \<Rightarrow> groups \<Rightarrow> mstate option"

definition at_boundary :: "pystr \<Rightarrow> pystr \<Rightarrow> bool" where
  "at_boundary pre rest =
     ((case pre of [] \<Rightarrow> False | c # _ \<Rightarrow> is_word c) \<noteq> (case rest of [] \<Rightarrow> False | c # _ \<Rightarrow> is_word c))"

fun dec :: "nat option \<Rightarrow> nat option" where
  "dec None = None"
| "dec (Some n) = Some (n - 1)"

fun rep_greedy :: "(uchar \<Rightarrow> bool) \<Rightarrow> nat \<Rightarrow> nat option \<Rightarrow> pystr \<Rightarrow> pystr \<Rightarrow> groups \<Rightarrow> cont \<Rightarrow> mstate option" where
  "rep_greedy P mn mx pre [] g k = (if mn = 0 then k pre [] g else None)"
| "rep_greedy P mn mx pre (c # cs) g k =
     (if mx \<noteq> Some 0 \<and> P c
      then (case rep_greedy P (mn - 1) (dec mx) (c # pre) cs g k of
              Some x \<Rightarrow> Some x
            | None \<Rightarrow> if mn = 0 then k pre (c # cs) g else None)
      else if mn = 0 then k pre (c # cs) g else None)"

fun rep_lazy :: "(uchar \<Rightarrow> bool) \<Rightarrow> nat \<Rightarrow> nat option \<Rightarrow> pystr \<Rightarrow> pystr \<Rightarrow> groups \<Rightarrow> cont \<Rightarrow> mstate option" where
  "rep_lazy P mn mx pre [] g k = (if mn = 0 then k pre [] g else None)"
| "rep_lazy P mn mx pre (c # cs) g k =
     (case (if mn = 0 then k pre (c # cs) g else None) of
        Some x \<Rightarrow> Some x
      | None \<Rightarrow> if mx \<noteq> Some 0 \<and> P c then rep_lazy P (mn - 1) (dec mx) (c # pre) cs g k else None)"

fun rmatch :: "bool \<Rightarrow> regex \<Rightarrow> pystr \<Rightarrow> pystr \<Rightarrow> groups \<Rightarrow> cont \<Rightarrow> mstate option" where
  "rmatch ic Emp pre rest g k = k pre rest g"
| "rmatch ic (One it) pre rest g k =
     (case rest of [] \<Rightarrow> None | c # cs \<Rightarrow> if item_match ic it c then k (c # pre) cs g else None)"
| "rmatch ic (Rep greedy mn mx it) pre rest g k =
     (if greedy then rep_greedy (item_match ic it) mn mx pre rest g k
      else rep_lazy (item_match ic it) mn mx pre rest g k)"
| "rmatch ic (Seq a b) pre rest g k =
     rmatch ic a pre rest g (\<lambda>pre' rest' g'. rmatch ic b pre' rest' g' k)"
| "rmatch ic (Alt a b) pre rest g k =
     (case rmatch ic a pre rest g k of Some x \<Rightarrow> Some x | None \<Rightarrow> rmatch ic b pre rest g k)"
| "rmatch ic (Opt a) pre rest g k =
     (case rmatch ic a pre rest g k of Some x \<Rightarrow> Some x | None \<Rightarrow> k pre rest g)"
| "rmatch ic (Grp n a) pre rest g k =
     rmatch ic a pre rest g
       (\<lambda>pre' rest' g'. k pre' rest' (g'(n \<mapsto> rev (take (length pre' - length pre) pre'))))"
| "rmatch ic WordB pre rest g k = (if at_boundary pre rest then k pre rest g else None)"
| "rmatch ic (Ahead a) pre rest g k =
     (case rmatch ic a pre rest g (\<lambda>pre' rest' g'. Some (pre', rest', g')) of
        None \<Rightarrow> None
      | Some (_, _, g') \<Rightarrow> k pre rest g')"


text \<open>A match object: where the match starts and ends, and the groups (0 is the whole match).\<close>

record mobj =
  m_start :: nat
  m_end :: nat
  m_groups :: groups

definition accept :: "bool \<Rightarrow> pystr \<Rightarrow> cont" where
  "accept must_advance pre =
     (\<lambda>pre' rest' g'. if must_advance \<and> length pre' = length pre then None else Some (pre', rest', g'))"

definition match_at :: "bool \<Rightarrow> regex \<Rightarrow> bool \<Rightarrow> pystr \<Rightarrow> pystr \<Rightarrow> mobj option" where
  "match_at ic r must_advance pre rest =
     (case rmatch ic r pre rest Map.empty (accept must_advance pre) of
        None \<Rightarrow> None
      | Some (pre', rest', g') \<Rightarrow>
          Some \<lparr>m_start = length pre, m_end = length pre',
                m_groups = g'(0 \<mapsto> rev (take (length pre' - length pre) pre'))\<rparr>)"

fun search_from :: "bool \<Rightarrow> regex \<Rightarrow> bool \<Rightarrow> pystr \<Rightarrow> pystr \<Rightarrow> mobj option" where
  "search_from ic r must_advance pre [] = match_at ic r must_advance pre []"
| "search_from ic r must_advance pre (c # cs) =
     (case match_at ic r must_advance pre (c # cs) of
        Some m \<Rightarrow> Some m
      | None \<Rightarrow> search_from ic r False (c # pre) cs)"

definition search :: "bool \<Rightarrow> regex \<Rightarrow> pystr \<Rightarrow> mobj option" where
  "search ic r t = search_from ic r False [] t"


subsection \<open>Where a match can end\<close>

lemma stay_here2:
  "k pre rest g = Some x \<Longrightarrow> \<exists>w rest'. rest = w @ rest' \<and> k (rev w @ pre) rest' g = Some x"
  by (rule exI[of _ "[]"]) simp

lemma stay_here3:
  "k pre rest g = Some x \<Longrightarrow> \<exists>w rest' g'. rest = w @ rest' \<and> k (rev w @ pre) rest' g' = Some x"
  by (rule exI[of _ "[]"]) auto

lemma rep_greedy_sound:
  "rep_greedy P mn mx pre rest g k = Some x \<Longrightarrow>
     \<exists>w rest'. rest = w @ rest' \<and> k (rev w @ pre) rest' g = Some x"
proof (induction rest arbitrary: mn mx pre)
  case Nil
  then show ?case by (auto split: if_splits)
next
  case (Cons c cs)
  show ?case
  proof (cases "rep_greedy P (mn - 1) (dec mx) (c # pre) cs g k")
    case None
    with Cons.prems have "k pre (c # cs) g = Some x"
      by (auto split: if_splits)
    with stay_here2[of k pre "c # cs" g x] show ?thesis by blast
  next
    case (Some y)
    show ?thesis
    proof (cases "mx \<noteq> Some 0 \<and> P c")
      case True
      with Some Cons.prems have "y = x" by simp
      with Some Cons.IH[of "mn - 1" "dec mx" "c # pre"]
      obtain w rest' where "cs = w @ rest'" "k (rev w @ c # pre) rest' g = Some x"
        by blast
      then show ?thesis
        by (intro exI[of _ "c # w"] exI[of _ rest']) simp
    next
      case False
      with Cons.prems have "k pre (c # cs) g = Some x"
        by (auto split: if_splits)
      with stay_here2[of k pre "c # cs" g x] show ?thesis by blast
    qed
  qed
qed

lemma rep_lazy_sound:
  "rep_lazy P mn mx pre rest g k = Some x \<Longrightarrow>
     \<exists>w rest'. rest = w @ rest' \<and> k (rev w @ pre) rest' g = Some x"
proof (induction rest arbitrary: mn mx pre)
  case Nil
  then show ?case by (auto split: if_splits)
next
  case (Cons c cs)
  show ?case
  proof (cases "mn = 0 \<and> k pre (c # cs) g \<noteq> None")
    case True
    with Cons.prems have "k pre (c # cs) g = Some x" by auto
    with stay_here2[of k pre "c # cs" g x] show ?thesis by blast
  next
    case False
    with Cons.prems have "rep_lazy P (mn - 1) (dec mx) (c # pre) cs g k = Some x"
      by (auto split: if_splits option.splits)
    with Cons.IH[of "mn - 1" "dec mx" "c # pre"]
    obtain w rest' where "cs = w @ rest'" "k (rev w @ c # pre) rest' g = Some x"
      by blast
    then show ?thesis
      by (intro exI[of _ "c # w"] exI[of _ rest']) simp
  qed
qed

lemma rmatch_sound:
  "rmatch ic r pre rest g k = Some x \<Longrightarrow>
     \<exists>w rest' g'. rest = w @ rest' \<and> k (rev w @ pre) rest' g' = Some x"
proof (induction r arbitrary: pre rest g k x)
  case Emp
  then have "k pre rest g = Some x" by simp
  with stay_here3[of k pre rest g x] show ?case by blast
next
  case (One it)
  then obtain c cs where "rest = c # cs" "k (c # pre) cs g = Some x"
    by (auto split: list.splits if_splits)
  then show ?case
    by (intro exI[of _ "[c]"] exI[of _ cs] exI[of _ g]) simp
next
  case (Rep greedy mn mx it)
  with rep_greedy_sound[of "item_match ic it" mn mx pre rest g k x]
    rep_lazy_sound[of "item_match ic it" mn mx pre rest g k x]
  show ?case
    by (cases greedy) (simp_all, blast+)
next
  case (Seq a b)
  from Seq.prems Seq.IH(1)[of pre rest g "\<lambda>pre' rest' g'. rmatch ic b pre' rest' g' k" x]
  obtain w1 r1 g1 where 1: "rest = w1 @ r1" "rmatch ic b (rev w1 @ pre) r1 g1 k = Some x"
    by auto
  from Seq.IH(2)[OF 1(2)]
  obtain w2 r2 g2 where 2: "r1 = w2 @ r2" "k (rev w2 @ rev w1 @ pre) r2 g2 = Some x"
    by auto
  with 1 show ?case
    by (intro exI[of _ "w1 @ w2"] exI[of _ r2] exI[of _ g2]) simp
next
  case (Alt a b)
  then show ?case by (auto split: option.splits)
next
  case (Opt a)
  show ?case
  proof (cases "rmatch ic a pre rest g k")
    case None
    with Opt.prems have "k pre rest g = Some x" by simp
    with stay_here3[of k pre rest g x] show ?thesis by blast
  next
    case (Some y)
    with Opt show ?thesis by auto
  qed
next
  case (Grp n a)
  from Grp.prems Grp.IH[of pre rest g _ x] show ?case
    by fastforce
next
  case WordB
  then have "k pre rest g = Some x" by (auto split: if_splits)
  with stay_here3[of k pre rest g x] show ?case by blast
next
  case (Ahead a)
  then obtain g' where "k pre rest g' = Some x"
    by (auto split: option.splits)
  with stay_here3[of k pre rest g' x] show ?case by blast
qed

lemma match_at_span:
  assumes "match_at ic r adv pre rest = Some m"
  shows "m_start m = length pre \<and> m_start m \<le> m_end m \<and> m_end m \<le> length pre + length rest
         \<and> (adv \<longrightarrow> m_start m < m_end m)"
proof -
  from assms obtain pre' rest' g' where
    a: "rmatch ic r pre rest Map.empty (accept adv pre) = Some (pre', rest', g')"
    and m: "m = \<lparr>m_start = length pre, m_end = length pre', m_groups = g'(0 \<mapsto> rev (take (length pre' - length pre) pre'))\<rparr>"
    by (auto simp: match_at_def split: option.splits)
  from rmatch_sound[OF a] obtain w r1 g1 where
    w: "rest = w @ r1" "accept adv pre (rev w @ pre) r1 g1 = Some (pre', rest', g')"
    by blast
  then have "pre' = rev w @ pre" "\<not> (adv \<and> length w = 0)"
    by (auto simp: accept_def split: if_splits)
  with m w(1) show ?thesis by auto
qed

lemma search_from_span:
  "search_from ic r adv pre rest = Some m \<Longrightarrow>
     length pre \<le> m_start m \<and> m_start m \<le> m_end m \<and> m_end m \<le> length pre + length rest
     \<and> (adv \<and> m_start m = length pre \<longrightarrow> m_start m < m_end m)"
proof (induction rest arbitrary: adv pre)
  case Nil
  then show ?case using match_at_span[of ic r adv pre "[]" m] by auto
next
  case (Cons c cs)
  show ?case
  proof (cases "match_at ic r adv pre (c # cs)")
    case None
    with Cons.prems have "search_from ic r False (c # pre) cs = Some m" by simp
    from Cons.IH[OF this] show ?thesis by auto
  next
    case (Some m')
    with Cons.prems have "m' = m" by simp
    with Some match_at_span[of ic r adv pre "c # cs" m] show ?thesis by auto
  qed
qed

subsection \<open>All matches\<close>

text \<open>
  \<^verbatim>\<open>re.findall\<close>: the successive matches from left to right. The search for the next
  match starts where the last one ended; after an empty match the next one must not be
  empty at the same place.
\<close>

function findall_from :: "bool \<Rightarrow> regex \<Rightarrow> pystr \<Rightarrow> bool \<Rightarrow> nat \<Rightarrow> mobj list" where
  "findall_from ic r t must_advance pos =
     (if length t < pos then []
      else (case search_from ic r must_advance (rev (take pos t)) (drop pos t) of
              None \<Rightarrow> []
            | Some m \<Rightarrow> m # findall_from ic r t (m_end m = m_start m) (m_end m)))"
  by pat_completeness auto
termination
proof (relation "measure (\<lambda>(ic, r, t, adv, pos). 2 * (Suc (length t) - pos) + (if adv then 0 else 1))", goal_cases)
  case 1
  then show ?case by simp
next
  case (2 ic r t must_advance pos m)
  from search_from_span[OF 2(2)] 2(1)
  have "pos \<le> m_start m" "m_start m \<le> m_end m" "m_end m \<le> length t"
    "must_advance \<and> m_start m = pos \<longrightarrow> m_start m < m_end m"
    by auto
  then show ?case by (auto split: if_splits)
qed

declare findall_from.simps [simp del]

definition findall :: "bool \<Rightarrow> regex \<Rightarrow> pystr \<Rightarrow> mobj list" where
  "findall ic r t = findall_from ic r t False 0"


section \<open>Dictionaries, errors and conversions\<close>

text \<open>
  The values of the complainant and accused dictionaries are strings or integers
  (\<open>Age\<close>). A dictionary is an association list in insertion order, which is the order
  Python iterates and serialises it in; its keys are the ASCII literals of the source.
\<close>

datatype pyval = PStr pystr | PInt int | PNone

type_synonym pydict = "(string \<times> pyval) list"

datatype pyerror = ValueError | TypeError | AttributeError

definition and_then :: "'e + 'a \<Rightarrow> ('a \<Rightarrow> 'e + 'b) \<Rightarrow> 'e + 'b" where
  "and_then x f = (case x of Inl e \<Rightarrow> Inl e | Inr v \<Rightarrow> f v)"

definition int_max_str_digits :: nat where
  "int_max_str_digits = 4300"

definition int_of_digits :: "pystr \<Rightarrow> nat" where
  "int_of_digits ds = foldl (\<lambda>a c. 10 * a + (cp c - 48)) 0 ds"

fun valid_digits :: "pystr \<Rightarrow> bool" where
  "valid_digits [] = False"
| "valid_digits [c] = is_digit c"
| "valid_digits (c # d # cs) =
     (is_digit c \<and> (if d = Latin CHR ''_'' then valid_digits cs else valid_digits (d # cs)))"

text \<open>
  \<^verbatim>\<open>int(s)\<close> on a string: white space around the number is dropped (for \<^verbatim>\<open>int\<close>
  the separators U+001C .. U+001F are not white space), a sign may come first, and the
  digits may have single underscores between them. A numeral of more than
  \<^verbatim>\<open>sys.get_int_max_str_digits()\<close> digits (4300 unless the interpreter is configured
  otherwise) raises ValueError, as a malformed one does.
\<close>

definition is_int_space :: "uchar \<Rightarrow> bool" where
  "is_int_space c = (let n = cp c in (9 \<le> n \<and> n \<le> 13) \<or> n = 32 \<or> n = 133 \<or> n = 160)"

definition py_int :: "pystr \<Rightarrow> pyerror + int" where
  "py_int s =
     (let b = rev (dropWhile is_int_space (rev (dropWhile is_int_space s)));
          neg = (case b of [] \<Rightarrow> False | c # _ \<Rightarrow> c = Latin CHR ''-'');
          body = (case b of [] \<Rightarrow> []
                  | c # cs \<Rightarrow> if c = Latin CHR ''+'' \<or> c = Latin CHR ''-'' then cs else b);
          ds = filter is_digit body
      in if \<not> valid_digits body then Inl ValueError
         else if int_max_str_digits < length ds then Inl ValueError
         else Inr (if neg then - int (int_of_digits ds) else int (int_of_digits ds)))"

text \<open>\<^verbatim>\<open>d[k] = v\<close>.\<close>

definition dict_set :: "string \<Rightarrow> pyval \<Rightarrow> pydict \<Rightarrow> pydict" where
  "dict_set k v d =
     (if k \<in> fst ` set d then map (\<lambda>(k', v'). if k' = k then (k', v) else (k', v')) d
      else d @ [(k, v)])"



text \<open>The entries of the tuples \<^verbatim>\<open>re.findall\<close> returns: the empty string for a group
  that took no part.\<close>

definition group_or_empty :: "mobj \<Rightarrow> nat \<Rightarrow> pystr" where
  "group_or_empty m i = (case m_groups m i of None \<Rightarrow> [] | Some s \<Rightarrow> s)"


section \<open>The patterns\<close>

fun lits :: "string \<Rightarrow> regex" where
  "lits [] = Emp"
| "lits (c # cs) = Seq (One (Chr (Latin c))) (lits cs)"

fun seqs :: "regex list \<Rightarrow> regex" where
  "seqs [] = Emp"
| "seqs (r # rs) = Seq r (seqs rs)"

fun alts :: "regex list \<Rightarrow> regex" where
  "alts [] = One (InSet [])"
| "alts [r] = r"
| "alts (r # rs) = Alt r (alts rs)"

definition upper_AZ :: atom where "upper_AZ = Range (Latin CHR ''A'') (Latin CHR ''Z'')"
definition lower_az :: atom where "lower_az = Range (Latin CHR ''a'') (Latin CHR ''z'')"

definition spaces0 :: regex where "spaces0 = Rep True 0 None (InSet [Space])"
definition spaces1 :: regex where "spaces1 = Rep True 1 None (InSet [Space])"
definition digits1 :: regex where "digits1 = Rep True 1 None (InSet [Digit])"
definition lazy_any :: regex where "lazy_any = Rep False 0 None Any"







text \<open>\<^verbatim>\<open>([A-Z][a-zA-Z\s]+),\s*aged\s*about\s*(\d+).*?(?:S/o\s*([A-Za-z\s]+))?.*?(?:resident\s*of\s*([A-Za-z\s]+))?.*?(?:history-sheeter)?\<close>\<close>
definition accused_re :: regex where
  "accused_re = seqs [
     Grp 1 (seqs [One (InSet [upper_AZ]), Rep True 1 None (InSet [lower_az, upper_AZ, Space])]),
     lits '','', spaces0, lits ''aged'', spaces0, lits ''about'', spaces0, Grp 2 digits1,
     lazy_any,
     Opt (seqs [lits ''S/o'', spaces0, Grp 3 (Rep True 1 None (InSet [upper_AZ, lower_az, Space]))]),
     lazy_any,
     Opt (seqs [lits ''resident'', spaces0, lits ''of'', spaces0,
                Grp 4 (Rep True 1 None (InSet [upper_AZ, lower_az, Space]))]),
     lazy_any,
     Opt (lits ''history-sheeter'')]"

text \<open>\<^verbatim>\<open>unknown person.*?(medium build|black shirt|fair|dark)\<close>\<close>
definition unknown_re :: regex where
  "unknown_re = seqs [lits ''unknown person'', lazy_any,
     Grp 1 (alts [lits ''medium build'', lits ''black shirt'', lits ''fair'', lits ''dark''])]"




text \<open>\<^verbatim>\<open>(\d{1,2}(?:th|st|nd|rd)?\s+\w+\s+\d{4}).*?(\d{1,2}[:.]\d+\s*[AP]M)\<close>\<close>
definition date_re :: regex where
  "date_re = seqs [Rep True 1 (Some 2) (InSet [Digit]),
     Opt (alts [lits ''th'', lits ''st'', lits ''nd'', lits ''rd'']),
     spaces1, Rep True 1 None (InSet [Word]), spaces1, Rep True 4 (Some 4) (InSet [Digit])]"

definition time_re :: regex where
  "time_re = seqs [Rep True 1 (Some 2) (InSet [Digit]),
     One (InSet [Lit (Latin CHR '':''), Lit (Latin CHR ''.'')]), digits1, spaces0,
     One (InSet [Lit (Latin CHR ''A''), Lit (Latin CHR ''P'')]), lits ''M'']"

definition datetime_re :: regex where
  "datetime_re = seqs [Grp 1 date_re, lazy_any, Grp 2 time_re]"



section \<open>Keyword extractors\<close>

definition extract_weapons :: "pystr \<Rightarrow> pystr list" where
  "extract_weapons t =
     (let weapons = [];
          weapons = (if str_in (str ''pistol'') (lower t)
                     then weapons @ [str ''Country-made pistol''] else weapons);
          weapons = (if str_in (str ''stick'') (lower t)
                     then weapons @ [str ''Stick''] else weapons)
      in weapons)"



section \<open>Pattern extractors\<close>


text \<open>The loop over the matches of the accused pattern; \<open>accused_list\<close> is the list built
  so far.\<close>

fun accused_loop :: "mobj list \<Rightarrow> pydict list \<Rightarrow> pyerror + pydict list" where
  "accused_loop [] accused_list = Inr accused_list"
| "accused_loop (m # ms) accused_list =
     (let name = group_or_empty m 1; age = group_or_empty m 2;
          relation = group_or_empty m 3; addr = group_or_empty m 4
      in and_then (py_int age) (\<lambda>n.
           let acc = [(''Name'', PStr (strip name)), (''Age'', PInt n)];
               acc = (if relation \<noteq> []
                      then dict_set ''Relation'' (PStr (str ''S/o '' @ strip relation)) acc else acc);
               acc = (if addr \<noteq> [] then dict_set ''Address'' (PStr (strip addr)) acc else acc)
           in accused_loop ms (accused_list @ [acc])))"

definition extract_accused_info :: "pystr \<Rightarrow> pyerror + pydict list" where
  "extract_accused_info t =
     (let accused_block = findall True accused_re t
      in and_then (accused_loop accused_block []) (\<lambda>accused_list.
           if str_in (str ''unknown'') (lower t)
           then (let unknown_match = search True unknown_re t;
                     desc = (case unknown_match of
                               None \<Rightarrow> PStr (str ''Unknown description'')
                             | Some m \<Rightarrow> (case m_groups m 1 of None \<Rightarrow> PNone | Some s \<Rightarrow> PStr s))
                 in Inr (accused_list @ [[(''Name'', PStr (str ''Unknown'')), (''Description'', desc)]]))
           else Inr accused_list))"




text \<open>A group inside an f-string: \<open>None\<close> is written \<^verbatim>\<open>None\<close>.\<close>

definition fmt_group :: "mobj \<Rightarrow> nat \<Rightarrow> pystr" where
  "fmt_group m i = (case m_groups m i of None \<Rightarrow> str ''None'' | Some s \<Rightarrow> s)"

definition extract_datetime :: "pystr \<Rightarrow> pystr" where
  "extract_datetime t =
     (case search True datetime_re t of
        Some m \<Rightarrow> fmt_group m 1 @ str '', '' @ fmt_group m 2
      | None \<Rightarrow> [])"


section \<open>The extraction record\<close>

text \<open>
  \<open>extract_all\<close> builds the dictionary \<open>data\<close> with eleven fixed keys, hands it to
  \<open>map_legal_sections\<close> and then stores the mapping under a twelfth key. The model has a
  record for the first and its extension for the second; \<^verbatim>\<open>info.get("Offences", [])\<close>
  is the field \<open>Offences\<close>, which every such dictionary has.
\<close>

record fir_data =
  Complainant :: pydict
  DateTime :: pystr
  Place :: pystr
  Accused :: "pydict list"
  Vehicles :: "pystr list"
  WeaponsUsed :: "pystr list"
  Offences :: "pystr list"
  PropertyLoss :: "pystr list"
  Threats :: "pystr list"
  Witnesses :: "pystr list"
  Impact :: pystr

type_synonym legal_mapping = "(pystr \<times> pystr list) list"


section \<open>Legal mapper\<close>

text \<open>\<^verbatim>\<open>mapping[k].append(x)\<close> and \<^verbatim>\<open>mapping[k].extend(xs)\<close> on a dictionary of lists
  that has the key \<open>k\<close>.\<close>

definition extend_at :: "pystr \<Rightarrow> pystr list \<Rightarrow> legal_mapping \<Rightarrow> legal_mapping" where
  "extend_at k xs m = map (\<lambda>(k', v). if k' = k then (k', v @ xs) else (k', v)) m"

text \<open>The dictionary \<open>mapping\<close> as it stands before the final comprehension.\<close>

definition legal_sections :: "'a fir_data_scheme \<Rightarrow> legal_mapping" where
  "legal_sections info =
     (let mapping = [(str ''BNS 2023'', []), (str ''SC/ST Act 1989'', []), (str ''Arms Act 1959'', [])];
          offences = Offences info;
          mapping = (if str ''Robbery'' \<in> set offences
                     then extend_at (str ''BNS 2023'')
                            [str ''Sec. 309 '' @ [EnDash] @ str '' Robbery''] mapping
                     else mapping);
          mapping = (if str ''Assault causing injury'' \<in> set offences
                     then extend_at (str ''BNS 2023'')
                            [str ''Sec. 115 '' @ [EnDash] @ str '' Hurt''] mapping
                     else mapping);
          mapping = (if \<exists>x \<in> set offences. str_in (str ''Threat'') x
                     then extend_at (str ''BNS 2023'')
                            [str ''Sec. 351 '' @ [EnDash] @ str '' Criminal intimidation''] mapping
                     else mapping);
          mapping = (if str ''Caste abuse'' \<in> set offences
                     then extend_at (str ''SC/ST Act 1989'')
                            [str ''Sec. 3(1)(r) '' @ [EnDash] @ str '' Intentional insult/abuse by caste name'',
                             str ''Sec. 3(2)(v) '' @ [EnDash] @ str '' Offence committed on ground of caste'']
                            mapping
                     else mapping);
          mapping = (if str_in (str ''firearm'') (join (str '' '') offences)
                        \<or> str_in (str ''pistol'') (join (str '' '') offences)
                     then extend_at (str ''Arms Act 1959'')
                            [str ''Sec. 25 '' @ [EnDash] @ str '' Possession/use of illegal arms'',
                             str ''Sec. 27 '' @ [EnDash] @ str '' Use of firearm in commission of offence'']
                            mapping
                     else mapping)
      in mapping)"

definition map_legal_sections :: "'a fir_data_scheme \<Rightarrow> legal_mapping" where
  "map_legal_sections info = filter (\<lambda>(k, v). v \<noteq> []) (legal_sections info)"

section \<open>The pipeline\<close>


section \<open>Vocabulary of the specification\<close>

text \<open>A keyword occurs in a text case-insensitively: some contiguous part of the text
  equals the keyword once both are lower-cased.\<close>

definition occurs_ci :: "pystr \<Rightarrow> pystr \<Rightarrow> bool" where
  "occurs_ci p t = (\<exists>pre mid suf. t = pre @ mid @ suf \<and> lower mid = lower p)"

text \<open>The three legal codes, in the order the mapper lists them.\<close>

definition legal_codes :: "pystr list" where
  "legal_codes = [str ''BNS 2023'', str ''SC/ST Act 1989'', str ''Arms Act 1959'']"

text \<open>A record with one offence tag and an unrelated weapon entry.\<close>

definition data_robbery :: fir_data where
  "data_robbery = \<lparr>Complainant = [], DateTime = [], Place = [], Accused = [], Vehicles = [],
     WeaponsUsed = [str ''Country-made pistol''], Offences = [str ''Robbery''], PropertyLoss = [],
     Threats = [], Witnesses = [], Impact = []\<rparr>"

text \<open>The rule table of the legal mapper, one list of citations for each code.\<close>

definition bns_rule :: "pystr list \<Rightarrow> pystr list" where
  "bns_rule offences =
     (if str ''Robbery'' \<in> set offences then [str ''Sec. 309 '' @ [EnDash] @ str '' Robbery''] else [])
     @ (if str ''Assault causing injury'' \<in> set offences
        then [str ''Sec. 115 '' @ [EnDash] @ str '' Hurt''] else [])
     @ (if \<exists>x \<in> set offences. str_in (str ''Threat'') x
        then [str ''Sec. 351 '' @ [EnDash] @ str '' Criminal intimidation''] else [])"

definition scst_rule :: "pystr list \<Rightarrow> pystr list" where
  "scst_rule offences =
     (if str ''Caste abuse'' \<in> set offences
      then [str ''Sec. 3(1)(r) '' @ [EnDash] @ str '' Intentional insult/abuse by caste name'',
            str ''Sec. 3(2)(v) '' @ [EnDash] @ str '' Offence committed on ground of caste'']
      else [])"

definition arms_rule :: "pystr list \<Rightarrow> pystr list" where
  "arms_rule offences =
     (if str_in (str ''firearm'') (join (str '' '') offences)
         \<or> str_in (str ''pistol'') (join (str '' '') offences)
      then [str ''Sec. 25 '' @ [EnDash] @ str '' Possession/use of illegal arms'',
            str ''Sec. 27 '' @ [EnDash] @ str '' Use of firearm in commission of offence'']
      else [])"




text \<open>The ASCII letters, and the characters with an upper-case partner.\<close>

definition is_letter :: "uchar \<Rightarrow> bool" where
  "is_letter c = (let n = cp c in (65 \<le> n \<and> n \<le> 90) \<or> (97 \<le> n \<and> n \<le> 122))"

definition is_lower :: "uchar \<Rightarrow> bool" where
  "is_lower c = (let n = cp c in (97 \<le> n \<and> n \<le> 122) \<or> (224 \<le> n \<and> n \<le> 254 \<and> n \<noteq> 247))"

text \<open>The dictionary the accused loop builds from one match whose age reads \<open>n\<close>, and the
  sentinel entry with a given description.\<close>

definition named_entry :: "mobj \<Rightarrow> int \<Rightarrow> pydict" where
  "named_entry m n =
     (let acc = [(''Name'', PStr (strip (group_or_empty m 1))), (''Age'', PInt n)];
          acc = (if group_or_empty m 3 \<noteq> []
                 then dict_set ''Relation'' (PStr (str ''S/o '' @ strip (group_or_empty m 3))) acc else acc);
          acc = (if group_or_empty m 4 \<noteq> []
                 then dict_set ''Address'' (PStr (strip (group_or_empty m 4))) acc else acc)
      in acc)"



text \<open>The text has a digit immediately followed by the word \<open>w\<close>, in any letter case.\<close>

definition digit_then :: "string \<Rightarrow> pystr \<Rightarrow> bool" where
  "digit_then w t = (\<exists>a d mid b. t = a @ d # mid @ b \<and> is_digit d \<and> lower mid = lower (str w))"



subsection \<open>Vocabulary of the proofs\<close>

text \<open>A repetition count within its upper bound; a literal word at the head of the
  remaining text; the groups of a pattern; the patterns that can match the empty word.\<close>

fun within :: "nat option \<Rightarrow> nat \<Rightarrow> bool" where
  "within None n = True"
| "within (Some m) n = (n \<le> m)"

fun lit_at :: "bool \<Rightarrow> string \<Rightarrow> pystr \<Rightarrow> bool" where
  "lit_at ic [] rest = True"
| "lit_at ic (x # xs) [] = False"
| "lit_at ic (x # xs) (c # cs) = (item_match ic (Chr (Latin x)) c \<and> lit_at ic xs cs)"

fun grps :: "regex \<Rightarrow> nat set" where
  "grps Emp = {}"
| "grps (One it) = {}"
| "grps (Rep greedy mn mx it) = {}"
| "grps (Seq a b) = grps a \<union> grps b"
| "grps (Alt a b) = grps a \<union> grps b"
| "grps (Opt a) = grps a"
| "grps (Grp n a) = insert n (grps a)"
| "grps WordB = {}"
| "grps (Ahead a) = grps a"

fun nullable :: "regex \<Rightarrow> bool" where
  "nullable Emp = True"
| "nullable (One it) = False"
| "nullable (Rep greedy mn mx it) = (mn = 0)"
| "nullable (Seq a b) = (nullable a \<and> nullable b)"
| "nullable (Alt a b) = (nullable a \<or> nullable b)"
| "nullable (Opt a) = True"
| "nullable (Grp n a) = nullable a"
| "nullable WordB = False"
| "nullable (Ahead a) = False"

text \<open>The parts of the accused pattern.\<close>

definition accused_head :: "regex list" where
  "accused_head =
     [Grp 1 (seqs [One (InSet [upper_AZ]), Rep True 1 None (InSet [lower_az, upper_AZ, Space])]),
      lits '','', spaces0, lits ''aged'', spaces0, lits ''about'', spaces0]"

definition relation_part :: regex where
  "relation_part = seqs [lits ''S/o'', spaces0, Grp 3 (Rep True 1 None (InSet [upper_AZ, lower_az, Space]))]"

definition address_part :: regex where
  "address_part = seqs [lits ''resident'', spaces0, lits ''of'', spaces0,
                Grp 4 (Rep True 1 None (InSet [upper_AZ, lower_az, Space]))]"

definition accused_tail3 :: "regex list" where
  "accused_tail3 = [lazy_any, Opt address_part, lazy_any, Opt (lits ''history-sheeter'')]"

definition accused_tail4 :: "regex list" where
  "accused_tail4 = [lazy_any, Opt (lits ''history-sheeter'')]"

text \<open>What a successful match consumed and captured: \<open>matches ic r w g g'\<close> says that the
  pattern \<open>r\<close> can consume the word \<open>w\<close>, turning the groups \<open>g\<close> into \<open>g'\<close>.\<close>

fun matches :: "bool \<Rightarrow> regex \<Rightarrow> pystr \<Rightarrow> groups \<Rightarrow> groups \<Rightarrow> bool" where
  "matches ic Emp w g g' = (w = [] \<and> g' = g)"
| "matches ic (One it) w g g' = (\<exists>c. w = [c] \<and> item_match ic it c \<and> g' = g)"
| "matches ic (Rep greedy mn mx it) w g g' =
     (list_all (item_match ic it) w \<and> mn \<le> length w \<and> within mx (length w) \<and> g' = g)"
| "matches ic (Seq a b) w g g' =
     (\<exists>w1 w2 g1. w = w1 @ w2 \<and> matches ic a w1 g g1 \<and> matches ic b w2 g1 g')"
| "matches ic (Alt a b) w g g' = (matches ic a w g g' \<or> matches ic b w g g')"
| "matches ic (Opt a) w g g' = (matches ic a w g g' \<or> (w = [] \<and> g' = g))"
| "matches ic (Grp n a) w g g' = (\<exists>g1. matches ic a w g g1 \<and> g' = g1(n \<mapsto> w))"
| "matches ic WordB w g g' = (w = [] \<and> g' = g)"
| "matches ic (Ahead a) w g g' = (w = [] \<and> (\<exists>w1. matches ic a w1 g g'))"

definition date_phrase :: "pystr \<Rightarrow> bool" where
  "date_phrase d =
     (\<exists>day suffix ws1 month ws2 year.
        d = day @ suffix @ ws1 @ month @ ws2 @ year
        \<and> list_all is_digit day \<and> 1 \<le> length day \<and> length day \<le> 2
        \<and> lower suffix \<in> {[], str ''th'', str ''st'', str ''nd'', str ''rd''}
        \<and> ws1 \<noteq> [] \<and> list_all is_space ws1
        \<and> month \<noteq> [] \<and> list_all is_word month
        \<and> ws2 \<noteq> [] \<and> list_all is_space ws2
        \<and> list_all is_digit year \<and> length year = 4)"

definition time_phrase :: "pystr \<Rightarrow> bool" where
  "time_phrase tm =
     (\<exists>hour sep minute ws ap m.
        tm = hour @ [sep] @ minute @ ws @ [ap, m]
        \<and> list_all is_digit hour \<and> 1 \<le> length hour \<and> length hour \<le> 2
        \<and> sep \<in> {Latin CHR '':'', Latin CHR ''.''}
        \<and> minute \<noteq> [] \<and> list_all is_digit minute
        \<and> list_all is_space ws
        \<and> lower1 ap \<in> {Latin CHR ''a'', Latin CHR ''p''} \<and> lower1 m = Latin CHR ''m'')"

definition four_words :: "string list" where
  "four_words = [''th'', ''st'', ''nd'', ''rd'']"

section \<open>The page around the pipeline\<close>












section \<open>Substring tests\<close>

lemma str_in_iff_sublist: "str_in p t \<longleftrightarrow> sublist p t"
  by (induction t) (auto simp: sublist_Cons_right)

lemma str_in_lower_iff: "str_in (lower p) (lower t) \<longleftrightarrow> occurs_ci p t"
proof
  assume "str_in (lower p) (lower t)"
  then obtain a b where "map lower1 t = a @ map lower1 p @ b"
    unfolding str_in_iff_sublist sublist_def lower_def by blast
  then obtain us ms vs where "t = us @ ms @ vs" "map lower1 ms = map lower1 p"
    by (auto simp: map_eq_append_conv append_eq_map_conv)
  then show "occurs_ci p t"
    unfolding occurs_ci_def lower_def by blast
next
  assume "occurs_ci p t"
  then obtain pre mid suf where "t = pre @ mid @ suf" "lower mid = lower p"
    unfolding occurs_ci_def by blast
  then have "lower t = lower pre @ lower p @ lower suf"
    by (simp add: lower_def)
  then show "str_in (lower p) (lower t)"
    unfolding str_in_iff_sublist sublist_def by blast
qed

lemma lower_str_pistol: "lower (str ''pistol'') = str ''pistol''"
  by (simp add: lower_def str_def is_upper_def)

lemma lower_str_stick: "lower (str ''stick'') = str ''stick''"
  by (simp add: lower_def str_def is_upper_def)

section \<open>Weapons\<close>

text \<open>
  C8. The weapons extractor emits \<open>Country-made pistol\<close> exactly when \<open>pistol\<close> occurs in
  the text case-insensitively and \<open>Stick\<close> exactly when \<open>stick\<close> does; when both occur the
  result lists the pistol first, wherever the keywords stand in the text.
\<close>

theorem weapons_exact:
  "extract_weapons t =
     (if occurs_ci (str ''pistol'') t then [str ''Country-made pistol''] else []) @
     (if occurs_ci (str ''stick'') t then [str ''Stick''] else [])"
  using str_in_lower_iff[of "str ''pistol''" t] str_in_lower_iff[of "str ''stick''" t]
  by (simp add: extract_weapons_def lower_str_pistol lower_str_stick)

lemma occurs_ci_stick_ex: "occurs_ci (str ''stick'') (str ''a STICK and a Pistol'')"
  unfolding str_in_lower_iff[symmetric] by (simp add: lower_def str_def is_upper_def)

lemma occurs_ci_pistol_ex: "occurs_ci (str ''pistol'') (str ''a STICK and a Pistol'')"
  unfolding str_in_lower_iff[symmetric] by (simp add: lower_def str_def is_upper_def)

theorem weapons_exact_witness:
  "extract_weapons (str ''a STICK and a Pistol'') = [str ''Country-made pistol'', str ''Stick'']"
  using weapons_exact[of "str ''a STICK and a Pistol''"] occurs_ci_stick_ex occurs_ci_pistol_ex
  by simp

section \<open>Legal mapping\<close>

lemma legal_sections_keys: "map fst (legal_sections info) = legal_codes"
  by (simp add: legal_sections_def legal_codes_def extend_at_def Let_def str_def)

lemma distinct_legal_codes: "distinct legal_codes"
  by (simp add: legal_codes_def str_def)

lemma code_neq:
  "str ''BNS 2023'' \<noteq> str ''SC/ST Act 1989''" "str ''BNS 2023'' \<noteq> str ''Arms Act 1959''"
  "str ''SC/ST Act 1989'' \<noteq> str ''Arms Act 1959''" "str ''SC/ST Act 1989'' \<noteq> str ''BNS 2023''"
  "str ''Arms Act 1959'' \<noteq> str ''BNS 2023''" "str ''Arms Act 1959'' \<noteq> str ''SC/ST Act 1989''"
  by (simp_all add: str_def)

lemma legal_sections_table:
  "legal_sections info =
     [(str ''BNS 2023'', bns_rule (Offences info)),
      (str ''SC/ST Act 1989'', scst_rule (Offences info)),
      (str ''Arms Act 1959'', arms_rule (Offences info))]"
  by (simp add: legal_sections_def Let_def extend_at_def code_neq bns_rule_def scst_rule_def arms_rule_def)

text \<open>
  C2. The keys of the mapping \<open>map_legal_sections\<close> returns are a subsequence of the three
  codes in their fixed order; a code is a key exactly when the list of citations collected
  for it is not empty; every entry of the result carries that non-empty list; and the
  result is the rule table with its empty entries left out.
\<close>

theorem legal_mapping_keys:
  "subseq (map fst (map_legal_sections info)) legal_codes
   \<and> (\<forall>k. k \<in> set (map fst (map_legal_sections info)) \<longleftrightarrow>
            (\<exists>v. map_of (legal_sections info) k = Some v \<and> v \<noteq> []))
   \<and> (\<forall>k v. (k, v) \<in> set (map_legal_sections info) \<longrightarrow>
            v \<noteq> [] \<and> map_of (legal_sections info) k = Some v)
   \<and> map_legal_sections info =
        filter (\<lambda>(k, v). v \<noteq> [])
          [(str ''BNS 2023'', bns_rule (Offences info)),
           (str ''SC/ST Act 1989'', scst_rule (Offences info)),
           (str ''Arms Act 1959'', arms_rule (Offences info))]"
proof (intro conjI)
  have "subseq (map fst (filter (\<lambda>(k, v). v \<noteq> []) (legal_sections info)))
               (map fst (legal_sections info))"
    by (intro subseq_map subseq_filter_left)
  then show "subseq (map fst (map_legal_sections info)) legal_codes"
    by (simp add: map_legal_sections_def legal_sections_keys)
next
  have d: "distinct (map fst (legal_sections info))"
    by (simp add: legal_sections_keys distinct_legal_codes)
  show "\<forall>k. k \<in> set (map fst (map_legal_sections info)) \<longleftrightarrow>
            (\<exists>v. map_of (legal_sections info) k = Some v \<and> v \<noteq> [])"
    using d by (auto simp: map_legal_sections_def image_iff)
  show "\<forall>k v. (k, v) \<in> set (map_legal_sections info) \<longrightarrow>
            v \<noteq> [] \<and> map_of (legal_sections info) k = Some v"
    using d by (auto simp: map_legal_sections_def)
next
  show "map_legal_sections info =
        filter (\<lambda>(k, v). v \<noteq> [])
          [(str ''BNS 2023'', bns_rule (Offences info)),
           (str ''SC/ST Act 1989'', scst_rule (Offences info)),
           (str ''Arms Act 1959'', arms_rule (Offences info))]"
    by (simp only: map_legal_sections_def legal_sections_table)
qed

lemma robbery_rules:
  "bns_rule (Offences data_robbery) = [str ''Sec. 309 '' @ [EnDash] @ str '' Robbery'']"
  "scst_rule (Offences data_robbery) = []" "arms_rule (Offences data_robbery) = []"
  by (simp_all add: bns_rule_def scst_rule_def arms_rule_def data_robbery_def str_def)

theorem legal_mapping_keys_witness:
  "map_legal_sections data_robbery = [(str ''BNS 2023'', [str ''Sec. 309 '' @ [EnDash] @ str '' Robbery''])]
   \<and> subseq (map fst (map_legal_sections data_robbery)) legal_codes
   \<and> map_of (legal_sections data_robbery) (str ''BNS 2023'')
        = Some [str ''Sec. 309 '' @ [EnDash] @ str '' Robbery'']
   \<and> str ''Arms Act 1959'' \<notin> set (map fst (map_legal_sections data_robbery))"
proof -
  note h = legal_mapping_keys[of data_robbery]
  from h have m: "map_legal_sections data_robbery = [(str ''BNS 2023'', [str ''Sec. 309 '' @ [EnDash] @ str '' Robbery''])]"
    by (simp add: robbery_rules)
  from h have s: "subseq (map fst (map_legal_sections data_robbery)) legal_codes"
    by blast
  from h have "\<forall>k v. (k, v) \<in> set (map_legal_sections data_robbery) \<longrightarrow>
            v \<noteq> [] \<and> map_of (legal_sections data_robbery) k = Some v"
    by blast
  with m have l: "map_of (legal_sections data_robbery) (str ''BNS 2023'')
        = Some [str ''Sec. 309 '' @ [EnDash] @ str '' Robbery'']"
    by simp
  from m have "str ''Arms Act 1959'' \<notin> set (map fst (map_legal_sections data_robbery))"
    by (simp add: code_neq)
  with m s l show ?thesis by blast
qed

text \<open>
  C9. The mapper reads nothing but the offence list: two dictionaries with equal
  \<open>Offences\<close> get equal mappings, whatever their other entries are.
\<close>

theorem legal_mapping_offences_only:
  "Offences a = Offences b \<Longrightarrow> map_legal_sections a = map_legal_sections b"
  by (simp add: map_legal_sections_def legal_sections_def)


theorem legal_mapping_offences_only_witness:
  "map_legal_sections (data_robbery\<lparr>WeaponsUsed := [], Impact := str ''pistol''\<rparr>)
     = map_legal_sections data_robbery"
  using legal_mapping_offences_only[of "data_robbery\<lparr>WeaponsUsed := [], Impact := str ''pistol''\<rparr>" data_robbery]
  by simp

section \<open>The matcher\<close>

subsection \<open>What a repetition and a literal word consume\<close>

lemma rep_greedy_elim:
  "rep_greedy P mn mx pre rest g k = Some x \<Longrightarrow>
     \<exists>w rest'. rest = w @ rest' \<and> list_all P w \<and> mn \<le> length w \<and> within mx (length w)
        \<and> k (rev w @ pre) rest' g = Some x"
proof (induction rest arbitrary: mn mx pre)
  case Nil
  then have "mn = 0" "k pre [] g = Some x"
    by (auto split: if_splits)
  then show ?case
    by (intro exI[of _ "[]"]) (cases mx, auto)
next
  case (Cons c cs)
  consider (more) "mx \<noteq> Some 0" "P c" "rep_greedy P (mn - 1) (dec mx) (c # pre) cs g k = Some x"
    | (stop) "mn = 0" "k pre (c # cs) g = Some x"
    using Cons.prems by (auto split: if_splits option.splits)
  then show ?case
  proof cases
    case more
    from Cons.IH[OF more(3)] obtain w rest' where w: "cs = w @ rest'" "list_all P w"
      "mn - 1 \<le> length w" "within (dec mx) (length w)" "k (rev w @ c # pre) rest' g = Some x"
      by blast
    from w(4) more(1) have "within mx (Suc (length w))"
      by (cases mx) auto
    with w more(2) show ?thesis
      by (intro exI[of _ "c # w"] exI[of _ rest']) auto
  next
    case stop
    then show ?thesis
      by (intro exI[of _ "[]"] exI[of _ "c # cs"]) (cases mx, auto)
  qed
qed

lemma rep_lazy_elim:
  "rep_lazy P mn mx pre rest g k = Some x \<Longrightarrow>
     \<exists>w rest'. rest = w @ rest' \<and> list_all P w \<and> mn \<le> length w \<and> within mx (length w)
        \<and> k (rev w @ pre) rest' g = Some x"
proof (induction rest arbitrary: mn mx pre)
  case Nil
  then have "mn = 0" "k pre [] g = Some x"
    by (auto split: if_splits)
  then show ?case
    by (intro exI[of _ "[]"]) (cases mx, auto)
next
  case (Cons c cs)
  consider (stop) "mn = 0" "k pre (c # cs) g = Some x"
    | (more) "mx \<noteq> Some 0" "P c" "rep_lazy P (mn - 1) (dec mx) (c # pre) cs g k = Some x"
    using Cons.prems by (auto split: if_splits option.splits)
  then show ?case
  proof cases
    case more
    from Cons.IH[OF more(3)] obtain w rest' where w: "cs = w @ rest'" "list_all P w"
      "mn - 1 \<le> length w" "within (dec mx) (length w)" "k (rev w @ c # pre) rest' g = Some x"
      by blast
    from w(4) more(1) have "within mx (Suc (length w))"
      by (cases mx) auto
    with w more(2) show ?thesis
      by (intro exI[of _ "c # w"] exI[of _ rest']) auto
  next
    case stop
    then show ?thesis
      by (intro exI[of _ "[]"] exI[of _ "c # cs"]) (cases mx, auto)
  qed
qed

lemma rmatch_lits:
  "rmatch ic (lits w) pre rest g k =
     (if lit_at ic w rest then k (rev (take (length w) rest) @ pre) (drop (length w) rest) g else None)"
proof (induction w arbitrary: pre rest)
  case Nil
  then show ?case by simp
next
  case (Cons x xs)
  show ?case
  proof (cases rest)
    case Nil
    then show ?thesis by simp
  next
    case (Cons c cs)
    with Cons.IH[of "c # pre" cs] show ?thesis by simp
  qed
qed

declare lits.simps [simp del]


lemma lit_at_ci: "lit_at True w rest \<longleftrightarrow> length w \<le> length rest \<and> lower (take (length w) rest) = lower (str w)"
  by (induction "True" w rest rule: lit_at.induct) (auto simp: lower_def str_def)

lemma lit_at_cs: "lit_at False w rest \<longleftrightarrow> prefix (str w) rest"
  by (induction "False" w rest rule: lit_at.induct) (auto simp: str_def)

lemma rep_greedy_max:
  assumes "k (rev (takeWhile P rest) @ pre) (dropWhile P rest) g = Some x"
    and "mn \<le> length (takeWhile P rest)"
  shows "rep_greedy P mn None pre rest g k = Some x"
  using assms
proof (induction rest arbitrary: pre mn)
  case Nil
  then show ?case by simp
next
  case (Cons c cs)
  show ?case
  proof (cases "P c")
    case True
    with Cons.prems Cons.IH[of "c # pre" "mn - 1"] show ?thesis by simp
  next
    case False
    with Cons.prems show ?thesis by simp
  qed
qed

lemma rep_lazy_zero:
  "k pre rest g = Some x \<Longrightarrow> rep_lazy P 0 mx pre rest g k = Some x"
  by (cases rest) auto

subsection \<open>Where the matches of a search come from\<close>

lemma search_from_Some:
  "search_from ic r adv pre rest = Some m \<Longrightarrow>
     \<exists>u rest'. rest = u @ rest' \<and> match_at ic r (adv \<and> u = []) (rev u @ pre) rest' = Some m"
proof (induction rest arbitrary: adv pre)
  case Nil
  then show ?case by simp
next
  case (Cons c cs)
  show ?case
  proof (cases "match_at ic r adv pre (c # cs)")
    case None
    with Cons.prems have "search_from ic r False (c # pre) cs = Some m" by simp
    from Cons.IH[OF this] obtain u rest' where
      "cs = u @ rest'" "match_at ic r False (rev u @ c # pre) rest' = Some m"
      by auto
    then show ?thesis
      by (intro exI[of _ "c # u"] exI[of _ rest']) simp
  next
    case (Some m')
    with Cons.prems have "match_at ic r adv pre (c # cs) = Some m" by simp
    then show ?thesis
      by (intro exI[of _ "[]"] exI[of _ "c # cs"]) simp
  qed
qed

lemma search_Some:
  "search ic r t = Some m \<Longrightarrow> \<exists>u rest. t = u @ rest \<and> match_at ic r False (rev u) rest = Some m"
  unfolding search_def using search_from_Some[of ic r False "[]" t m] by auto

lemma findall_from_past: "length t < pos \<Longrightarrow> findall_from ic r t adv pos = []"
  by (subst findall_from.simps) simp

lemma findall_from_None:
  "search_from ic r adv (rev (take pos t)) (drop pos t) = None \<Longrightarrow> findall_from ic r t adv pos = []"
  by (subst findall_from.simps) simp

lemma findall_from_Some:
  "\<not> length t < pos \<Longrightarrow> search_from ic r adv (rev (take pos t)) (drop pos t) = Some m \<Longrightarrow>
     findall_from ic r t adv pos = m # findall_from ic r t (m_end m = m_start m) (m_end m)"
  by (subst findall_from.simps) simp

lemma findall_from_member:
  "m \<in> set (findall_from ic r t adv pos) \<Longrightarrow>
     \<exists>u rest a. t = u @ rest \<and> match_at ic r a (rev u) rest = Some m"
proof (induction ic r t adv pos rule: findall_from.induct)
  case (1 ic r t must_advance pos)
  show ?case
  proof (cases "length t < pos")
    case True
    with "1.prems" show ?thesis by (simp add: findall_from_past)
  next
    case False
    show ?thesis
    proof (cases "search_from ic r must_advance (rev (take pos t)) (drop pos t)")
      case None
      with "1.prems" show ?thesis
        by (simp add: findall_from_None)
    next
      case (Some m')
      from "1.prems" have "m \<in> set (m' # findall_from ic r t (m_end m' = m_start m') (m_end m'))"
        by (simp only: findall_from_Some[OF False Some])
      then consider "m = m'"
        | "m \<in> set (findall_from ic r t (m_end m' = m_start m') (m_end m'))"
        by auto
      then show ?thesis
      proof cases
        case 1
        with search_from_Some[OF Some] obtain u rest' a where
          u: "drop pos t = u @ rest'" "match_at ic r a (rev u @ rev (take pos t)) rest' = Some m"
          by blast
        have "t = (take pos t @ u) @ rest'"
          using u(1) by (metis append.assoc append_take_drop_id)
        moreover have "match_at ic r a (rev (take pos t @ u)) rest' = Some m"
          using u(2) by simp
        ultimately show ?thesis by blast
      next
        case 2
        from "1.IH"[OF False Some 2] show ?thesis .
      qed
    qed
  qed
qed

lemma findall_member:
  "m \<in> set (findall ic r t) \<Longrightarrow> \<exists>u rest a. t = u @ rest \<and> match_at ic r a (rev u) rest = Some m"
  unfolding findall_def by (rule findall_from_member)

lemma match_at_Some:
  "match_at ic r adv pre rest = Some m \<Longrightarrow>
     \<exists>pre' rest' g'. rmatch ic r pre rest Map.empty (accept adv pre) = Some (pre', rest', g')
       \<and> m_groups m = g'(0 \<mapsto> rev (take (length pre' - length pre) pre'))"
  by (auto simp: match_at_def split: option.splits)

lemma accept_Some:
  "accept adv pre p r g = Some x \<Longrightarrow> x = (p, r, g)"
  by (auto simp: accept_def split: if_splits)

section \<open>The pipeline, field by field\<close>









lemma and_then_Inr: "and_then x f = Inr y \<longleftrightarrow> (\<exists>v. x = Inr v \<and> f v = Inr y)"
  by (cases x) (auto simp: and_then_def)






section \<open>The accused list\<close>

lemma named_entry_keys:
  "map fst (named_entry m n) =
     [''Name'', ''Age''] @ (if group_or_empty m 3 \<noteq> [] then [''Relation''] else [])
       @ (if group_or_empty m 4 \<noteq> [] then [''Address''] else [])"
  by (simp add: named_entry_def dict_set_def Let_def)

lemma accused_loop_Inr:
  "accused_loop ms acc = Inr out \<Longrightarrow>
     \<exists>new. out = acc @ new \<and>
       list_all2 (\<lambda>m e. \<exists>n. py_int (group_or_empty m 2) = Inr n \<and> e = named_entry m n) ms new"
proof (induction ms arbitrary: acc)
  case Nil
  then show ?case by simp
next
  case (Cons m ms)
  from Cons.prems obtain n where n: "py_int (group_or_empty m 2) = Inr n"
    and l: "accused_loop ms (acc @ [named_entry m n]) = Inr out"
    by (auto simp: and_then_Inr Let_def named_entry_def)
  from Cons.IH[OF l] obtain new where new: "out = (acc @ [named_entry m n]) @ new"
    "list_all2 (\<lambda>m e. \<exists>n. py_int (group_or_empty m 2) = Inr n \<and> e = named_entry m n) ms new"
    by blast
  with n show ?case
    by (intro exI[of _ "named_entry m n # new"]) simp
qed

lemma rmatch_Seq: "rmatch ic (Seq a b) pre rest g k = rmatch ic a pre rest g (\<lambda>pre' rest' g'. rmatch ic b pre' rest' g' k)"
  by simp

lemma rmatch_Grp: "rmatch ic (Grp n a) pre rest g k =
     rmatch ic a pre rest g
       (\<lambda>pre' rest' g'. k pre' rest' (g'(n \<mapsto> rev (take (length pre' - length pre) pre'))))"
  by simp

lemma rmatch_Alt_Some:
  "rmatch ic (Alt a b) pre rest g k = Some x \<Longrightarrow>
     rmatch ic a pre rest g k = Some x \<or> rmatch ic b pre rest g k = Some x"
  by (auto split: option.splits)


lemma take_rev_append: "rev (take (length u) (rev u @ p)) = u"
  by simp

declare alts.simps [simp del]











section \<open>Character classes under IGNORECASE\<close>

lemma cp_lower1: "cp (lower1 c) = (if is_upper c then cp c + 32 else cp c)"
proof (cases c)
  case (Latin x)
  obtain b0 b1 b2 b3 b4 b5 b6 b7 where x: "x = Char b0 b1 b2 b3 b4 b5 b6 b7"
    by (cases x)
  show ?thesis
    unfolding Latin x
    by (cases b5; cases b6; cases b7; cases b4; cases b3; cases b2; cases b1; cases b0)
       (simp_all add: is_upper_def)
qed (simp_all add: is_upper_def)

lemma cp_upper1: "cp (upper1 c) = (if is_lower c then cp c - 32 else cp c)"
proof (cases c)
  case (Latin x)
  obtain b0 b1 b2 b3 b4 b5 b6 b7 where x: "x = Char b0 b1 b2 b3 b4 b5 b6 b7"
    by (cases x)
  show ?thesis
    unfolding Latin x
    by (cases b5; cases b6; cases b7; cases b4; cases b3; cases b2; cases b1; cases b0)
       (simp_all add: is_upper_def is_lower_def)
qed (simp_all add: is_lower_def)

lemma cp_inj: "cp a = cp b \<Longrightarrow> a = b"
proof (cases a; cases b)
  fix x y assume "a = Latin x" "b = Latin y" "cp a = cp b"
  then show "a = b" by simp
next
  fix x assume "a = Latin x" "b = Rupee" "cp a = cp b"
  moreover have "of_char x < (256 :: nat)" by (rule nat_of_char_less_256)
  ultimately show "a = b" by simp
next
  fix x assume "a = Latin x" "b = EnDash" "cp a = cp b"
  moreover have "of_char x < (256 :: nat)" by (rule nat_of_char_less_256)
  ultimately show "a = b" by simp
next
  fix x assume "a = Rupee" "b = Latin x" "cp a = cp b"
  moreover have "of_char x < (256 :: nat)" by (rule nat_of_char_less_256)
  ultimately show "a = b" by simp
next
  fix x assume "a = EnDash" "b = Latin x" "cp a = cp b"
  moreover have "of_char x < (256 :: nat)" by (rule nat_of_char_less_256)
  ultimately show "a = b" by simp
qed simp_all

lemma range_ignorecase:
  "atom_match True (Range lo hi) c \<longleftrightarrow> (\<exists>x. cp lo \<le> cp x \<and> cp x \<le> cp hi \<and> lower1 x = lower1 c)"
proof
  assume "atom_match True (Range lo hi) c"
  then consider "cp lo \<le> cp (lower1 c) \<and> cp (lower1 c) \<le> cp hi"
    | "cp lo \<le> cp (upper1 c) \<and> cp (upper1 c) \<le> cp hi"
    by auto
  then show "\<exists>x. cp lo \<le> cp x \<and> cp x \<le> cp hi \<and> lower1 x = lower1 c"
  proof cases
    case 1
    have "lower1 (lower1 c) = lower1 c"
      by (rule cp_inj) (auto simp: cp_lower1 is_upper_def Let_def)
    with 1 show ?thesis by blast
  next
    case 2
    have "lower1 (upper1 c) = lower1 c"
      by (rule cp_inj) (auto simp: cp_lower1 cp_upper1 is_upper_def is_lower_def Let_def)
    with 2 show ?thesis by blast
  qed
next
  assume "\<exists>x. cp lo \<le> cp x \<and> cp x \<le> cp hi \<and> lower1 x = lower1 c"
  then obtain x where x: "cp lo \<le> cp x" "cp x \<le> cp hi" "lower1 x = lower1 c"
    by blast
  from x(3) have "cp (lower1 x) = cp (lower1 c)" by simp
  then have "cp x = cp (lower1 c) \<or> cp x = cp (upper1 c)"
    by (auto simp: cp_lower1 cp_upper1 is_upper_def is_lower_def Let_def split: if_splits)
  with x(1,2) show "atom_match True (Range lo hi) c"
    by auto
qed



lemma text_class_ci:
  "item_match True (InSet [upper_AZ, lower_az, Space]) c \<longleftrightarrow> is_letter c \<or> is_space c"
  by (auto simp: upper_AZ_def lower_az_def cp_lower1 cp_upper1 is_upper_def is_lower_def is_letter_def Let_def)

lemma space_class: "item_match ic (InSet [Space]) c \<longleftrightarrow> is_space c"
  by simp

lemma digit_class: "item_match ic (InSet [Digit]) c \<longleftrightarrow> is_digit c"
  by simp

section \<open>The complainant's name\<close>














section \<open>Patterns whose rest always matches\<close>

lemma rmatch_frame:
  "rmatch ic r pre rest g k = Some x \<Longrightarrow>
     \<exists>w rest' g'. rest = w @ rest' \<and> k (rev w @ pre) rest' g' = Some x
        \<and> (\<forall>n. n \<notin> grps r \<longrightarrow> g' n = g n)"
proof (induction r arbitrary: pre rest g k x)
  case Emp
  then have "k (rev [] @ pre) rest g = Some x" by simp
  then show ?case by blast
next
  case (One it)
  then obtain c cs where "rest = c # cs" "k (c # pre) cs g = Some x"
    by (auto split: list.splits if_splits)
  then have "rest = [c] @ cs \<and> k (rev [c] @ pre) cs g = Some x" by simp
  then show ?case by blast
next
  case (Rep greedy mn mx it)
  with rep_greedy_elim[of "item_match ic it" mn mx pre rest g k x]
    rep_lazy_elim[of "item_match ic it" mn mx pre rest g k x]
  show ?case
    by (cases greedy) (simp_all, blast+)
next
  case (Seq a b)
  from Seq.prems Seq.IH(1)[of pre rest g "\<lambda>pre' rest' g'. rmatch ic b pre' rest' g' k" x]
  obtain w1 r1 g1 where 1: "rest = w1 @ r1" "rmatch ic b (rev w1 @ pre) r1 g1 k = Some x"
    "\<forall>n. n \<notin> grps a \<longrightarrow> g1 n = g n"
    by auto
  from Seq.IH(2)[OF 1(2)]
  obtain w2 r2 g2 where 2: "r1 = w2 @ r2" "k (rev w2 @ rev w1 @ pre) r2 g2 = Some x"
    "\<forall>n. n \<notin> grps b \<longrightarrow> g2 n = g1 n"
    by auto
  from 1 2 have "rest = (w1 @ w2) @ r2 \<and> k (rev (w1 @ w2) @ pre) r2 g2 = Some x
      \<and> (\<forall>n. n \<notin> grps (Seq a b) \<longrightarrow> g2 n = g n)"
    by simp
  then show ?case by blast
next
  case (Alt a b)
  from Alt.prems consider "rmatch ic a pre rest g k = Some x" | "rmatch ic b pre rest g k = Some x"
    by (auto split: option.splits)
  then show ?case
  proof cases
    case 1
    from Alt.IH(1)[OF 1] show ?thesis by (simp, blast)
  next
    case 2
    from Alt.IH(2)[OF 2] show ?thesis by (simp, blast)
  qed
next
  case (Opt a)
  from Opt.prems consider "rmatch ic a pre rest g k = Some x" | "k (rev [] @ pre) rest g = Some x"
    by (auto split: option.splits)
  then show ?case
  proof cases
    case 1
    from Opt.IH[OF 1] show ?thesis by simp
  next
    case 2
    then show ?thesis by blast
  qed
next
  case (Grp n a)
  let ?k = "\<lambda>pre' rest' g'. k pre' rest' (g'(n \<mapsto> rev (take (length pre' - length pre) pre')))"
  from Grp.prems have "rmatch ic a pre rest g ?k = Some x" by simp
  from Grp.IH[OF this] obtain w rest' g' where
    "rest = w @ rest'" "?k (rev w @ pre) rest' g' = Some x" "\<forall>m. m \<notin> grps a \<longrightarrow> g' m = g m"
    by blast
  then have "rest = w @ rest' \<and> k (rev w @ pre) rest' (g'(n \<mapsto> w)) = Some x
      \<and> (\<forall>m. m \<notin> grps (Grp n a) \<longrightarrow> (g'(n \<mapsto> w)) m = g m)"
    by simp
  then show ?case by blast
next
  case WordB
  then have "k (rev [] @ pre) rest g = Some x" by (auto split: if_splits)
  then show ?case by blast
next
  case (Ahead a)
  then obtain p1 r1 g1 where a: "rmatch ic a pre rest g (\<lambda>pre' rest' g'. Some (pre', rest', g')) = Some (p1, r1, g1)"
    and k: "k (rev [] @ pre) rest g1 = Some x"
    by (auto split: option.splits)
  from Ahead.IH[OF a] have "\<forall>n. n \<notin> grps a \<longrightarrow> g1 n = g n"
    by auto
  with k show ?case by (simp, blast)
qed

lemma rep_greedy_total:
  assumes "\<And>p' r' g'. length pre \<le> length p' \<Longrightarrow> k p' r' g' \<noteq> None"
  shows "rep_greedy P 0 mx pre rest g k \<noteq> None"
  using assms
proof (induction rest arbitrary: pre mx)
  case Nil
  then show ?case by simp
next
  case (Cons c cs)
  from Cons.prems[of pre] have "k pre (c # cs) g \<noteq> None" by simp
  then show ?case by (auto split: option.splits)
qed

lemma rep_lazy_total:
  assumes "\<And>p' r' g'. length pre \<le> length p' \<Longrightarrow> k p' r' g' \<noteq> None"
  shows "rep_lazy P 0 mx pre rest g k \<noteq> None"
proof -
  from assms[of pre rest g] obtain x where "k pre rest g = Some x" by auto
  then show ?thesis by (simp add: rep_lazy_zero)
qed

lemma rmatch_total:
  assumes "nullable r" and "\<And>p' r' g'. length pre \<le> length p' \<Longrightarrow> (k :: cont) p' r' g' \<noteq> None"
  shows "rmatch ic r pre rest g k \<noteq> None"
  using assms
proof (induction r arbitrary: pre rest g k)
  case (Rep greedy mn mx it)
  then show ?case
    using rep_greedy_total[of pre k "item_match ic it" mx rest g]
      rep_lazy_total[of pre k "item_match ic it" mx rest g]
    by (cases greedy) auto
next
  case (Seq a b)
  have "rmatch ic a pre rest g (\<lambda>pre' rest' g'. rmatch ic b pre' rest' g' k) \<noteq> None"
  proof (rule Seq.IH(1))
    show "nullable a" using Seq.prems(1) by simp
    fix p' r' :: pystr and g' :: groups assume le: "length pre \<le> length p'"
    show "rmatch ic b p' r' g' k \<noteq> None"
    proof (rule Seq.IH(2))
      show "nullable b" using Seq.prems(1) by simp
      fix p'' r'' :: pystr and g'' :: groups assume "length p' \<le> length p''"
      with le Seq.prems(2)[of p''] show "k p'' r'' g'' \<noteq> None" by simp
    qed
  qed
  then show ?case by simp
next
  case (Alt a b)
  show ?case
  proof (cases "nullable a")
    case True
    have "rmatch ic a pre rest g k \<noteq> None"
      by (rule Alt.IH(1)) (use True Alt.prems(2) in auto)
    then show ?thesis
      by (auto split: option.splits)
  next
    case False
    with Alt.prems(1) have "nullable b" by simp
    have "rmatch ic b pre rest g k \<noteq> None"
      by (rule Alt.IH(2)) (use \<open>nullable b\<close> Alt.prems(2) in auto)
    then show ?thesis
      by (auto split: option.splits)
  qed
next
  case (Opt a)
  from Opt.prems(2)[of pre] have "k pre rest g \<noteq> None" by simp
  then show ?case by (auto split: option.splits)
next
  case (Grp n a)
  have "rmatch ic a pre rest g
       (\<lambda>pre' rest' g'. k pre' rest' (g'(n \<mapsto> rev (take (length pre' - length pre) pre')))) \<noteq> None"
  proof (rule Grp.IH)
    show "nullable a" using Grp.prems(1) by simp
    fix p' r' :: pystr and g' :: groups assume "length pre \<le> length p'"
    with Grp.prems(2)[of p'] show "k p' r' (g'(n \<mapsto> rev (take (length p' - length pre) p'))) \<noteq> None"
      by simp
  qed
  then show ?case by simp
qed simp_all

lemma rep_greedy_exact:
  assumes "\<And>p' r' g'. length pre \<le> length p' \<Longrightarrow> k p' r' g' \<noteq> None"
  shows "rep_greedy P mn None pre rest g k =
     (if mn \<le> length (takeWhile P rest) then k (rev (takeWhile P rest) @ pre) (dropWhile P rest) g else None)"
proof (cases "mn \<le> length (takeWhile P rest)")
  case True
  from assms[of "rev (takeWhile P rest) @ pre" "dropWhile P rest" g] obtain x where
    x: "k (rev (takeWhile P rest) @ pre) (dropWhile P rest) g = Some x"
    by auto
  from rep_greedy_max[where k=k and P=P and rest=rest and pre=pre and g=g, OF x True] x True
  show ?thesis by simp
next
  case False
  have "rep_greedy P mn None pre rest g k = None"
  proof (rule ccontr)
    assume "rep_greedy P mn None pre rest g k \<noteq> None"
    then obtain x where "rep_greedy P mn None pre rest g k = Some x" by auto
    from rep_greedy_elim[OF this] obtain w rest' where w: "rest = w @ rest'" "list_all P w" "mn \<le> length w"
      by blast
    then have "length w \<le> length (takeWhile P rest)"
      by (simp add: list_all_iff takeWhile_append2)
    with w(3) False show False by simp
  qed
  with False show ?thesis by simp
qed

section \<open>The entries of the named accused\<close>

lemma rmatch_seqs_append:
  "rmatch ic (seqs (xs @ ys)) pre rest g k =
     rmatch ic (seqs xs) pre rest g (\<lambda>p r g'. rmatch ic (seqs ys) p r g' k)"
  by (induction xs arbitrary: pre rest g k) simp_all

lemma accused_re_split:
  "accused_re = seqs (accused_head @ [Grp 2 digits1] @ [lazy_any, Opt relation_part] @ accused_tail3)"
  by (simp add: accused_re_def accused_head_def relation_part_def address_part_def accused_tail3_def)

lemma grps_seqs: "grps (seqs rs) = (\<Union>r \<in> set rs. grps r)"
  by (induction rs) auto

lemma nullable_seqs: "nullable (seqs rs) = (\<forall>r \<in> set rs. nullable r)"
  by (induction rs) auto

lemma grps_lits: "grps (lits w) = {}"
  by (induction w) (simp_all add: lits.simps)

lemma accept_total: "length pre0 < length p \<Longrightarrow> accept adv pre0 p r g \<noteq> None"
  by (simp add: accept_def)

lemma tail4_frame:
  assumes "rmatch True (seqs accused_tail4) p r g (accept adv pre0) = Some (p', r', g')"
  shows "g' = g"
proof -
  from rmatch_frame[OF assms] obtain w r1 g1 where
    "accept adv pre0 (rev w @ p) r1 g1 = Some (p', r', g')" "\<forall>n. n \<notin> grps (seqs accused_tail4) \<longrightarrow> g1 n = g n"
    by blast
  moreover have "grps (seqs accused_tail4) = {}"
    by (simp add: grps_seqs accused_tail4_def lazy_any_def grps_lits)
  ultimately show ?thesis
    by (auto dest: accept_Some)
qed

lemma tail4_total:
  "length pre0 < length p \<Longrightarrow> rmatch True (seqs accused_tail4) p r g (accept adv pre0) \<noteq> None"
  by (rule rmatch_total) (simp_all add: nullable_seqs accused_tail4_def lazy_any_def accept_total)

lemma tail3_total:
  "length pre0 < length p \<Longrightarrow> rmatch True (seqs accused_tail3) p r g (accept adv pre0) \<noteq> None"
  by (rule rmatch_total) (simp_all add: nullable_seqs accused_tail3_def lazy_any_def accept_total)

lemma tail3_split: "accused_tail3 = [lazy_any, Opt address_part] @ accused_tail4"
  by (simp add: accused_tail3_def accused_tail4_def)

lemma lazy_any_skip:
  assumes "rmatch True (seqs rs) p r g k \<noteq> None"
  shows "rmatch True (seqs (lazy_any # rs)) p r g k = rmatch True (seqs rs) p r g k"
proof -
  from assms obtain x where x: "rmatch True (seqs rs) p r g k = Some x" by auto
  then have "rep_lazy (item_match True Any) 0 None p r g (\<lambda>p r g. rmatch True (seqs rs) p r g k) = Some x"
    by (rule rep_lazy_zero)
  with x show ?thesis by (simp add: lazy_any_def)
qed

lemma opt_seqs:
  "rmatch ic (seqs (Opt a # rs)) p r g k =
     (case rmatch ic a p r g (\<lambda>p r g. rmatch ic (seqs rs) p r g k) of
        Some x \<Rightarrow> Some x | None \<Rightarrow> rmatch ic (seqs rs) p r g k)"
  by simp

lemma tail3_groups:
  assumes adv: "length pre0 < length p"
    and m: "rmatch True (seqs accused_tail3) p r g (accept adv pre0) = Some (p', r', g')"
  shows "g' 3 = g 3 \<and> (g' 4 \<noteq> g 4 \<longrightarrow> lit_at True ''resident'' r)"
proof
  from rmatch_frame[OF m] obtain w r1 g1 where
    "accept adv pre0 (rev w @ p) r1 g1 = Some (p', r', g')" "\<forall>n. n \<notin> grps (seqs accused_tail3) \<longrightarrow> g1 n = g n"
    by blast
  moreover have "grps (seqs accused_tail3) = {4}"
    by (simp add: grps_seqs accused_tail3_def address_part_def lazy_any_def spaces0_def grps_lits)
  ultimately show "g' 3 = g 3"
    by (auto dest: accept_Some)
next
  let ?K4 = "\<lambda>p r g. rmatch True (seqs accused_tail4) p r g (accept adv pre0)"
  have "accept adv pre0 q s h \<noteq> None" if "length p \<le> length q" for q s h
    using that adv by (intro accept_total) simp
  then have "rmatch True (seqs (Opt address_part # accused_tail4)) p r g (accept adv pre0) \<noteq> None"
    by (intro rmatch_total) (simp_all add: nullable_seqs accused_tail4_def lazy_any_def)
  from lazy_any_skip[OF this] m
  have o: "rmatch True (seqs (Opt address_part # accused_tail4)) p r g (accept adv pre0) = Some (p', r', g')"
    by (simp add: accused_tail3_def accused_tail4_def)
  show "g' 4 \<noteq> g 4 \<longrightarrow> lit_at True ''resident'' r"
  proof (cases "rmatch True address_part p r g ?K4")
    case None
    with o have "?K4 p r g = Some (p', r', g')"
      by (simp only: opt_seqs option.case)
    from tail4_frame[OF this] show ?thesis by simp
  next
    case (Some x)
    then have "lit_at True ''resident'' r"
      by (simp add: address_part_def rmatch_lits split: if_splits)
    then show ?thesis by simp
  qed
qed

lemma lit_at_hd:
  "lit_at True (x # xs) r \<Longrightarrow> r \<noteq> [] \<and> lower1 (hd r) = lower1 (Latin x)"
  by (cases r) auto

lemma lower1_letter:
  assumes "lower1 c = lower1 (Latin x)" "is_letter (Latin x)"
  shows "is_letter c"
proof -
  from assms(1) have "cp (lower1 c) = cp (lower1 (Latin x))" by simp
  with assms(2) show ?thesis
    unfolding cp_lower1 by (auto simp: is_letter_def is_upper_def Let_def split: if_splits)
qed

lemma relation_branch:
  assumes adv: "length pre0 < length p" and g4: "g 4 = None"
    and m: "rmatch True relation_part p r g
              (\<lambda>p r g. rmatch True (seqs accused_tail3) p r g (accept adv pre0)) = Some (p', r', g')"
  shows "lit_at True ''S/o'' r \<and> g' 4 = None \<and> g' 3 \<noteq> None"
proof -
  let ?K3 = "\<lambda>p r g. rmatch True (seqs accused_tail3) p r g (accept adv pre0)"
  let ?cls = "item_match True (InSet [upper_AZ, lower_az, Space])"
  let ?run = "Grp 3 (Rep True 1 None (InSet [upper_AZ, lower_az, Space]))"
  from m have l: "lit_at True ''S/o'' r"
    and 1: "rmatch True (seqs [spaces0, ?run]) (rev (take (length ''S/o'') r) @ p) (drop (length ''S/o'') r) g ?K3 = Some (p', r', g')"
    by (simp_all add: relation_part_def rmatch_lits split: if_splits)
  let ?p1 = "rev (take (length ''S/o'') r) @ p"
  from 1 have "rep_greedy (item_match True (InSet [Space])) 0 None ?p1 (drop (length ''S/o'') r) g
      (\<lambda>p r g. rmatch True (seqs [?run]) p r g ?K3) = Some (p', r', g')"
    by (simp add: spaces0_def)
  from rep_greedy_elim[OF this] obtain w r2 where
    2: "rmatch True (seqs [?run]) (rev w @ ?p1) r2 g ?K3 = Some (p', r', g')"
    by blast
  let ?p2 = "rev w @ ?p1"
  let ?K = "\<lambda>p' r' g'. ?K3 p' r' (g'(3 \<mapsto> rev (take (length p' - length ?p2) p')))"
  from 2 have 3: "rep_greedy ?cls 1 None ?p2 r2 g ?K = Some (p', r', g')"
    by simp
  have tot: "?K q s h \<noteq> None" if "length ?p2 \<le> length q" for q s h
    using that adv by (intro tail3_total) simp
  let ?u = "takeWhile ?cls r2"
  let ?r3 = "dropWhile ?cls r2"
  from 3 rep_greedy_exact[of ?p2 ?K ?cls 1 r2 g, OF tot]
  have 4: "?K3 (rev ?u @ ?p2) ?r3 (g(3 \<mapsto> ?u)) = Some (p', r', g')"
    by (simp split: if_splits)
  have "length pre0 < length (rev ?u @ ?p2)"
    using adv by simp
  from tail3_groups[OF this 4] have 5: "g' 3 = Some ?u" "g' 4 \<noteq> None \<longrightarrow> lit_at True ''resident'' ?r3"
    using g4 by auto
  have "g' 4 = None"
  proof (rule ccontr)
    assume "g' 4 \<noteq> None"
    with 5(2) have "lit_at True ''resident'' ?r3" by simp
    from lit_at_hd[OF this] have ne: "?r3 \<noteq> []" and lw: "lower1 (hd ?r3) = lower1 (Latin CHR ''r'')"
      by simp_all
    from lw have "is_letter (hd ?r3)"
      by (rule lower1_letter) (simp add: is_letter_def)
    then have "?cls (hd ?r3)"
      by (simp add: text_class_ci del: item_match.simps)
    with hd_dropWhile[OF ne] show False by simp
  qed
  with l 5(1) show ?thesis by simp
qed

lemma accused_match:
  assumes "match_at True accused_re adv pre0 rest = Some m"
  shows "\<exists>w ds r2. rest = w @ ds @ r2 \<and> ds \<noteq> [] \<and> list_all is_digit ds \<and> m_groups m 2 = Some ds
        \<and> (m_groups m 3 \<noteq> None \<longrightarrow> lit_at True ''S/o'' r2 \<and> m_groups m 4 = None)
        \<and> (m_groups m 4 \<noteq> None \<longrightarrow> lit_at True ''resident'' r2)"
proof -
  let ?K = "accept adv pre0"
  let ?K3 = "\<lambda>p r g. rmatch True (seqs accused_tail3) p r g ?K"
  let ?tail = "[lazy_any, Opt relation_part] @ accused_tail3"
  from match_at_Some[OF assms] obtain p' r' g' where
    r: "rmatch True accused_re pre0 rest Map.empty ?K = Some (p', r', g')"
    and m: "m_groups m = g'(0 \<mapsto> rev (take (length p' - length pre0) p'))"
    by blast
  from r have "rmatch True (seqs accused_head) pre0 rest Map.empty
      (\<lambda>p r g. rmatch True (seqs ([Grp 2 digits1] @ ?tail)) p r g ?K) = Some (p', r', g')"
    by (simp only: accused_re_split rmatch_seqs_append)
  from rmatch_frame[OF this] obtain w r1 g1 where
    1: "rest = w @ r1" "rmatch True (seqs ([Grp 2 digits1] @ ?tail)) (rev w @ pre0) r1 g1 ?K = Some (p', r', g')"
      "\<forall>n. n \<notin> grps (seqs accused_head) \<longrightarrow> g1 n = Map.empty n"
    by blast
  have "grps (seqs accused_head) = {1}"
    by (simp add: grps_seqs accused_head_def spaces0_def grps_lits)
  with 1(3) have g1: "g1 3 = None" "g1 4 = None"
    by simp_all
  let ?p1 = "rev w @ pre0"
  from 1(2) have "rep_greedy (item_match True (InSet [Digit])) 1 None ?p1 r1 g1
      (\<lambda>p r g. rmatch True (seqs ?tail) p r (g(2 \<mapsto> rev (take (length p - length ?p1) p))) ?K) = Some (p', r', g')"
    by (simp add: digits1_def del: item_match.simps)
  from rep_greedy_elim[OF this] obtain ds r2 where
    2: "r1 = ds @ r2" "list_all (item_match True (InSet [Digit])) ds" "1 \<le> length ds"
      "rmatch True (seqs ?tail) (rev ds @ ?p1) r2 (g1(2 \<mapsto> ds)) ?K = Some (p', r', g')"
    by auto
  let ?p2 = "rev ds @ ?p1"
  let ?g2 = "g1(2 \<mapsto> ds)"
  from 2(3) have adv: "length pre0 < length ?p2"
    by (cases ds) auto
  have tot: "?K q s h \<noteq> None" if "length ?p2 \<le> length q" for q s h
  proof -
    from adv that have "length pre0 < length q" by (rule less_le_trans)
    then show ?thesis by (rule accept_total)
  qed
  have gt: "grps (seqs ?tail) = {3, 4}"
    by (auto simp: grps_seqs accused_tail3_def relation_part_def address_part_def lazy_any_def spaces0_def grps_lits)
  from rmatch_frame[OF 2(4)] obtain w3 r3 g3 where
    "accept adv pre0 (rev w3 @ ?p2) r3 g3 = Some (p', r', g')" "\<forall>n. n \<notin> grps (seqs ?tail) \<longrightarrow> g3 n = ?g2 n"
    by blast
  with gt have "g' 2 = ?g2 2"
    by (auto dest!: accept_Some)
  then have g2: "g' 2 = Some ds" by simp
  have "rmatch True (seqs (Opt relation_part # accused_tail3)) ?p2 r2 ?g2 ?K \<noteq> None"
    using tot by (intro rmatch_total) (simp_all add: nullable_seqs accused_tail3_def lazy_any_def)
  from lazy_any_skip[OF this] 2(4)
  have o: "rmatch True (seqs (Opt relation_part # accused_tail3)) ?p2 r2 ?g2 ?K = Some (p', r', g')"
    by simp
  have "(g' 3 \<noteq> None \<longrightarrow> lit_at True ''S/o'' r2 \<and> g' 4 = None)
        \<and> (g' 4 \<noteq> None \<longrightarrow> lit_at True ''resident'' r2)"
  proof (cases "rmatch True relation_part ?p2 r2 ?g2 ?K3")
    case None
    with o have "?K3 ?p2 r2 ?g2 = Some (p', r', g')"
      by (simp only: opt_seqs option.case)
    from tail3_groups[OF adv this] g1 show ?thesis by simp
  next
    case (Some x)
    with o have "rmatch True relation_part ?p2 r2 ?g2 ?K3 = Some (p', r', g')"
      by (simp only: opt_seqs option.case)
    from relation_branch[OF adv _ this] g1 show ?thesis by simp
  qed
  moreover have "list_all is_digit ds"
    using 2(2) by (simp add: list_all_iff)
  moreover have "ds \<noteq> []"
    using 2(3) by auto
  ultimately show ?thesis
    using 1(1) 2(1) g2 m by (intro exI[of _ w] exI[of _ ds] exI[of _ r2]) simp
qed

lemma digit_then_intro:
  assumes "t = u @ w @ ds @ r2" "ds \<noteq> []" "list_all is_digit ds" "lit_at True x r2"
  shows "digit_then x t"
proof -
  from assms(2) obtain ds' d where ds: "ds = ds' @ [d]"
    by (cases ds rule: rev_cases) auto
  with assms(3) have "is_digit d" by simp
  moreover from assms(4) have "lower (take (length x) r2) = lower (str x)"
    by (simp add: lit_at_ci)
  moreover have "t = (u @ w @ ds') @ d # take (length x) r2 @ drop (length x) r2"
    using assms(1) ds by simp
  ultimately show ?thesis
    unfolding digit_then_def by blast
qed

lemma last_dropWhile: "dropWhile P xs \<noteq> [] \<Longrightarrow> last (dropWhile P xs) = last xs"
  by (induction xs) (auto split: if_splits)

lemma strip_idem: "strip (strip s) = strip s"
proof -
  let ?y = "dropWhile is_space s"
  let ?z = "dropWhile is_space (rev ?y)"
  have z: "?z = [] \<or> \<not> is_space (hd ?z)"
    using hd_dropWhile[of is_space "rev ?y"] by blast
  have "dropWhile is_space (rev ?z) = rev ?z"
  proof (cases "?z = []")
    case True
    then have "rev ?z = []" by (simp only: rev.simps)
    then show ?thesis by (simp only: dropWhile.simps)
  next
    case False
    then have "rev ?y \<noteq> []" by (metis dropWhile.simps(1))
    then have y: "?y \<noteq> []" by simp
    from False have "last ?z = last (rev ?y)"
      by (rule last_dropWhile)
    also have "\<dots> = hd ?y"
      using y by (simp add: last_rev)
    finally have "hd (rev ?z) = hd ?y"
      using False by (simp add: hd_rev)
    moreover have "\<not> is_space (hd ?y)"
      using y by (rule hd_dropWhile)
    ultimately show ?thesis
      by (simp add: dropWhile_eq_self_iff)
  qed
  moreover have "dropWhile is_space ?z = ?z"
    using z by (simp add: dropWhile_eq_self_iff)
  ultimately show ?thesis
    by (simp add: strip_def)
qed

lemma named_entry_props:
  assumes "m \<in> set (findall True accused_re t)"
  shows "(\<exists>nm. take 2 (named_entry m n) = [(''Name'', PStr nm), (''Age'', PInt n)] \<and> strip nm = nm)
       \<and> map fst (named_entry m n) \<in> {[''Name'', ''Age''], [''Name'', ''Age'', ''Relation''], [''Name'', ''Age'', ''Address'']}
       \<and> (''Relation'' \<in> fst ` set (named_entry m n) \<longrightarrow> digit_then ''S/o'' t)
       \<and> (''Address'' \<in> fst ` set (named_entry m n) \<longrightarrow> digit_then ''resident'' t)"
proof -
  from findall_member[OF assms] obtain u rest a where
    t: "t = u @ rest" and "match_at True accused_re a (rev u) rest = Some m"
    by blast
  from accused_match[OF this(2)] obtain w ds r2 where
    r: "rest = w @ ds @ r2" "ds \<noteq> []" "list_all is_digit ds"
    and 3: "m_groups m 3 \<noteq> None \<longrightarrow> lit_at True ''S/o'' r2 \<and> m_groups m 4 = None"
    and 4: "m_groups m 4 \<noteq> None \<longrightarrow> lit_at True ''resident'' r2"
    by blast
  have rel: "digit_then ''S/o'' t \<and> group_or_empty m 4 = []" if "group_or_empty m 3 \<noteq> []"
  proof -
    from that have "m_groups m 3 \<noteq> None"
      by (auto simp: group_or_empty_def split: option.splits)
    with 3 have "lit_at True ''S/o'' r2" "m_groups m 4 = None" by simp_all
    with digit_then_intro[of t u w ds r2 "''S/o''"] t r show ?thesis
      by (simp add: group_or_empty_def)
  qed
  have adr: "digit_then ''resident'' t" if "group_or_empty m 4 \<noteq> []"
  proof -
    from that have "m_groups m 4 \<noteq> None"
      by (auto simp: group_or_empty_def split: option.splits)
    with 4 have "lit_at True ''resident'' r2" by simp
    with digit_then_intro[of t u w ds r2 "''resident''"] t r show ?thesis
      by simp
  qed
  have k: "map fst (named_entry m n) =
     [''Name'', ''Age''] @ (if group_or_empty m 3 \<noteq> [] then [''Relation''] else [])
       @ (if group_or_empty m 4 \<noteq> [] then [''Address''] else [])"
    by (rule named_entry_keys)
  have "take 2 (named_entry m n) = [(''Name'', PStr (strip (group_or_empty m 1))), (''Age'', PInt n)]"
    by (simp add: named_entry_def dict_set_def Let_def)
  then have "\<exists>nm. take 2 (named_entry m n) = [(''Name'', PStr nm), (''Age'', PInt n)] \<and> strip nm = nm"
    using strip_idem by blast
  moreover have "map fst (named_entry m n) \<in> {[''Name'', ''Age''], [''Name'', ''Age'', ''Relation''], [''Name'', ''Age'', ''Address'']}"
    unfolding k using rel by auto
  moreover have "''Relation'' \<in> fst ` set (named_entry m n) \<longrightarrow> digit_then ''S/o'' t"
  proof
    assume "''Relation'' \<in> fst ` set (named_entry m n)"
    then have "''Relation'' \<in> set (map fst (named_entry m n))" by simp
    then have "group_or_empty m 3 \<noteq> []"
      unfolding k by (auto split: if_splits)
    with rel show "digit_then ''S/o'' t" by simp
  qed
  moreover have "''Address'' \<in> fst ` set (named_entry m n) \<longrightarrow> digit_then ''resident'' t"
  proof
    assume "''Address'' \<in> fst ` set (named_entry m n)"
    then have "''Address'' \<in> set (map fst (named_entry m n))" by simp
    then have "group_or_empty m 4 \<noteq> []"
      unfolding k by (auto split: if_splits)
    with adr show "digit_then ''resident'' t" by simp
  qed
  ultimately show ?thesis by blast
qed

lemma extract_accused_named:
  assumes "extract_accused_info t = Inr accs" "e \<in> set accs" "''Description'' \<notin> fst ` set e"
  shows "\<exists>m n. m \<in> set (findall True accused_re t) \<and> py_int (group_or_empty m 2) = Inr n \<and> e = named_entry m n"
proof -
  from assms(1) obtain named where l: "accused_loop (findall True accused_re t) [] = Inr named"
    and a: "accs = named \<or> (\<exists>d. accs = named @ [[(''Name'', PStr (str ''Unknown'')), (''Description'', d)]])"
    unfolding extract_accused_info_def Let_def and_then_Inr by (auto split: if_splits)
  from a assms(2,3) have "e \<in> set named" by auto
  moreover from accused_loop_Inr[OF l]
  have "list_all2 (\<lambda>m e. \<exists>n. py_int (group_or_empty m 2) = Inr n \<and> e = named_entry m n)
          (findall True accused_re t) named"
    by simp
  ultimately show ?thesis
    by (auto simp: list_all2_conv_all_nth in_set_conv_nth)
qed

text \<open>
  C10, as amended. Every entry of the accused list without a description starts with the
  keys \<open>Name\<close> (a trimmed text) and \<open>Age\<close> (an integer) and has at most one further key,
  \<open>Relation\<close> or \<open>Address\<close>. \<open>Relation\<close> is there only when the text has a digit
  immediately followed by \<open>S/o\<close>, and \<open>Address\<close> only when it has a digit immediately
  followed by \<open>resident\<close>; in every other text the keys are exactly \<open>Name\<close> and \<open>Age\<close>.
\<close>

theorem named_entry_keys_amended:
  assumes "extract_accused_info t = Inr accs" and "e \<in> set accs" and "''Description'' \<notin> fst ` set e"
  shows "(\<exists>nm age. take 2 e = [(''Name'', PStr nm), (''Age'', PInt age)] \<and> strip nm = nm)
       \<and> map fst e \<in> {[''Name'', ''Age''], [''Name'', ''Age'', ''Relation''], [''Name'', ''Age'', ''Address'']}
       \<and> (''Relation'' \<in> fst ` set e \<longrightarrow> digit_then ''S/o'' t)
       \<and> (''Address'' \<in> fst ` set e \<longrightarrow> digit_then ''resident'' t)"
proof -
  from extract_accused_named[OF assms] obtain m n where
    m: "m \<in> set (findall True accused_re t)" and e: "e = named_entry m n"
    by blast
  from named_entry_props[OF m, of n] show ?thesis
    unfolding e by blast
qed

text \<open>The claim as stated fails: where \<open>S/o\<close> follows the age at once, the loop
  populates \<open>Relation\<close>.\<close>

theorem relation_populated_counterexample:
  "extract_accused_info (str ''Ravi, aged about 30S/o Raju'') =
     Inr [[(''Name'', PStr (str ''Ravi'')), (''Age'', PInt 30), (''Relation'', PStr (str ''S/o Raju''))]]"
  by code_simp

lemma accused_address_ex:
  "extract_accused_info (str ''Ravi, aged about 30resident of Kadiri'') =
     Inr [[(''Name'', PStr (str ''Ravi'')), (''Age'', PInt 30), (''Address'', PStr (str ''Kadiri''))]]"
  by code_simp

theorem named_entry_keys_amended_witness:
  "extract_accused_info (str ''Ravi, aged about 30resident of Kadiri'') =
     Inr [[(''Name'', PStr (str ''Ravi'')), (''Age'', PInt 30), (''Address'', PStr (str ''Kadiri''))]]
   \<and> map fst [(''Name'', PStr (str ''Ravi'')), (''Age'', PInt 30), (''Address'', PStr (str ''Kadiri''))]
     \<in> {[''Name'', ''Age''], [''Name'', ''Age'', ''Relation''], [''Name'', ''Age'', ''Address'']}
   \<and> digit_then ''resident'' (str ''Ravi, aged about 30resident of Kadiri'')"
  using named_entry_keys_amended[OF accused_address_ex,
      of "[(''Name'', PStr (str ''Ravi'')), (''Age'', PInt 30), (''Address'', PStr (str ''Kadiri''))]"]
    accused_address_ex
  by simp

lemma rmatch_matches:
  "rmatch ic r pre rest g k = Some x \<Longrightarrow>
     \<exists>w rest' g'. rest = w @ rest' \<and> matches ic r w g g' \<and> k (rev w @ pre) rest' g' = Some x"
proof (induction r arbitrary: pre rest g k x)
  case Emp
  then have "rest = [] @ rest \<and> matches ic Emp [] g g \<and> k (rev [] @ pre) rest g = Some x" by simp
  then show ?case by blast
next
  case (One it)
  then obtain c cs where "rest = c # cs" "item_match ic it c" "k (c # pre) cs g = Some x"
    by (auto split: list.splits if_splits)
  then have "rest = [c] @ cs \<and> matches ic (One it) [c] g g \<and> k (rev [c] @ pre) cs g = Some x" by simp
  then show ?case by blast
next
  case (Rep greedy mn mx it)
  have "\<exists>w rest'. rest = w @ rest' \<and> list_all (item_match ic it) w \<and> mn \<le> length w
          \<and> within mx (length w) \<and> k (rev w @ pre) rest' g = Some x"
  proof (cases greedy)
    case True
    with Rep have "rep_greedy (item_match ic it) mn mx pre rest g k = Some x" by simp
    then show ?thesis by (rule rep_greedy_elim)
  next
    case False
    with Rep have "rep_lazy (item_match ic it) mn mx pre rest g k = Some x" by simp
    then show ?thesis by (rule rep_lazy_elim)
  qed
  then obtain w rest' where "rest = w @ rest' \<and> matches ic (Rep greedy mn mx it) w g g
      \<and> k (rev w @ pre) rest' g = Some x"
    by auto
  then show ?case by blast
next
  case (Seq a b)
  from Seq.prems Seq.IH(1)[of pre rest g "\<lambda>pre' rest' g'. rmatch ic b pre' rest' g' k" x]
  obtain w1 r1 g1 where 1: "rest = w1 @ r1" "rmatch ic b (rev w1 @ pre) r1 g1 k = Some x"
    "matches ic a w1 g g1"
    by auto
  from Seq.IH(2)[OF 1(2)]
  obtain w2 r2 g2 where 2: "r1 = w2 @ r2" "k (rev w2 @ rev w1 @ pre) r2 g2 = Some x"
    "matches ic b w2 g1 g2"
    by auto
  from 1 2 have "rest = (w1 @ w2) @ r2 \<and> matches ic (Seq a b) (w1 @ w2) g g2
      \<and> k (rev (w1 @ w2) @ pre) r2 g2 = Some x"
    by auto
  then show ?case by blast
next
  case (Alt a b)
  from Alt.prems consider "rmatch ic a pre rest g k = Some x" | "rmatch ic b pre rest g k = Some x"
    by (auto split: option.splits)
  then show ?case
  proof cases
    case 1
    from Alt.IH(1)[OF 1] show ?thesis by (simp, blast)
  next
    case 2
    from Alt.IH(2)[OF 2] show ?thesis by (simp, blast)
  qed
next
  case (Opt a)
  from Opt.prems consider "rmatch ic a pre rest g k = Some x" | "k (rev [] @ pre) rest g = Some x"
    by (auto split: option.splits)
  then show ?case
  proof cases
    case 1
    from Opt.IH[OF 1] show ?thesis by (simp, blast)
  next
    case 2
    then have "rest = [] @ rest \<and> matches ic (Opt a) [] g g \<and> k (rev [] @ pre) rest g = Some x"
      by simp
    then show ?thesis by blast
  qed
next
  case (Grp n a)
  let ?k = "\<lambda>pre' rest' g'. k pre' rest' (g'(n \<mapsto> rev (take (length pre' - length pre) pre')))"
  from Grp.prems have "rmatch ic a pre rest g ?k = Some x" by simp
  from Grp.IH[OF this] obtain w rest' g' where
    "rest = w @ rest'" "?k (rev w @ pre) rest' g' = Some x" "matches ic a w g g'"
    by blast
  then have "rest = w @ rest' \<and> matches ic (Grp n a) w g (g'(n \<mapsto> w))
      \<and> k (rev w @ pre) rest' (g'(n \<mapsto> w)) = Some x"
    by auto
  then show ?case by blast
next
  case WordB
  then have "rest = [] @ rest \<and> matches ic WordB [] g g \<and> k (rev [] @ pre) rest g = Some x"
    by (auto split: if_splits)
  then show ?case by blast
next
  case (Ahead a)
  then obtain p1 r1 g1 where a: "rmatch ic a pre rest g (\<lambda>pre' rest' g'. Some (pre', rest', g')) = Some (p1, r1, g1)"
    and k: "k (rev [] @ pre) rest g1 = Some x"
    by (auto split: option.splits)
  from Ahead.IH[OF a] obtain w1 where "matches ic a w1 g g1"
    by auto
  with k have "rest = [] @ rest \<and> matches ic (Ahead a) [] g g1 \<and> k (rev [] @ pre) rest g1 = Some x"
    by auto
  then show ?case by blast
qed

lemma matches_lits:
  "matches ic (lits w) u g g' \<longleftrightarrow> length u = length w \<and> lit_at ic w u \<and> g' = g"
proof (induction w arbitrary: u)
  case Nil
  then show ?case by (auto simp: lits.simps)
next
  case (Cons x xs)
  show ?case
  proof (cases u)
    case Nil
    then show ?thesis by (simp add: lits.simps)
  next
    case (Cons c cs)
    have "matches ic (lits (x # xs)) (c # cs) g g' \<longleftrightarrow>
          item_match ic (Chr (Latin x)) c \<and> matches ic (lits xs) cs g g'"
    proof
      assume "matches ic (lits (x # xs)) (c # cs) g g'"
      then obtain w2 where "c # cs = [c] @ w2" "item_match ic (Chr (Latin x)) c" "matches ic (lits xs) w2 g g'"
        by (auto simp: lits.simps simp del: item_match.simps)
      then show "item_match ic (Chr (Latin x)) c \<and> matches ic (lits xs) cs g g'"
        by simp
    next
      assume "item_match ic (Chr (Latin x)) c \<and> matches ic (lits xs) cs g g'"
      then have "c # cs = [c] @ cs \<and> matches ic (One (Chr (Latin x))) [c] g g \<and> matches ic (lits xs) cs g g'"
        by simp
      then show "matches ic (lits (x # xs)) (c # cs) g g'"
        unfolding lits.simps matches.simps(4) by blast
    qed
    with Cons Cons.IH[of cs] show ?thesis
      by auto
  qed
qed

lemma match_at_matches:
  assumes "match_at ic r adv pre rest = Some m"
  shows "\<exists>w rest' g'. rest = w @ rest' \<and> matches ic r w Map.empty g' \<and> m_groups m = g'(0 \<mapsto> w)"
proof -
  from match_at_Some[OF assms] obtain p' r' g' where
    r: "rmatch ic r pre rest Map.empty (accept adv pre) = Some (p', r', g')"
    and m: "m_groups m = g'(0 \<mapsto> rev (take (length p' - length pre) p'))"
    by blast
  from rmatch_matches[OF r] obtain w rest' g1 where
    "rest = w @ rest'" "matches ic r w Map.empty g1" "accept adv pre (rev w @ pre) rest' g1 = Some (p', r', g')"
    by blast
  with m accept_Some[OF this(3)] show ?thesis
    by (intro exI[of _ w] exI[of _ rest'] exI[of _ g1]) auto
qed

lemma search_matches:
  assumes "search ic r t = Some m"
  shows "\<exists>a w b g'. t = a @ w @ b \<and> matches ic r w Map.empty g' \<and> m_groups m = g'(0 \<mapsto> w)"
proof -
  from search_Some[OF assms] obtain u rest where "t = u @ rest" "match_at ic r False (rev u) rest = Some m"
    by blast
  with match_at_matches[OF this(2)] show ?thesis by blast
qed

lemma findall_matches:
  assumes "m \<in> set (findall ic r t)"
  shows "\<exists>a w b g'. t = a @ w @ b \<and> matches ic r w Map.empty g' \<and> m_groups m = g'(0 \<mapsto> w)"
proof -
  from findall_member[OF assms] obtain u rest a where "t = u @ rest" "match_at ic r a (rev u) rest = Some m"
    by blast
  with match_at_matches[OF this(2)] show ?thesis by blast
qed

lemma list_all_class:
  "list_all (item_match ic (InSet [Digit])) w = list_all is_digit w"
  "list_all (item_match ic (InSet [Space])) w = list_all is_space w"
  "list_all (item_match ic (InSet [Word])) w = list_all is_word w"
  by (simp_all add: list_all_iff)

lemma lit_at_lower:
  "length u = length w \<Longrightarrow> lit_at True w u \<Longrightarrow> lower u = lower (str w)"
  by (simp add: lit_at_ci)

lemma matches_frame:
  "matches ic r w g g' \<Longrightarrow> n \<notin> grps r \<Longrightarrow> g' n = g n"
proof (induction r arbitrary: w g g')
  case (Seq r1 r2)
  from Seq.prems obtain w1 w2 g1 where "matches ic r1 w1 g g1" "matches ic r2 w2 g1 g'"
    by auto
  with Seq.IH(1)[of w1 g g1] Seq.IH(2)[of w2 g1 g'] Seq.prems(2) show ?case
    by simp
next
  case (Ahead r)
  then show ?case by auto
qed (auto simp del: item_match.simps)

lemma matches_nogroups:
  "matches ic r w g g' \<Longrightarrow> grps r = {} \<Longrightarrow> g' = g"
  using matches_frame[of ic r w g g'] by auto

lemma grps_alts: "grps (alts rs) = (\<Union>r \<in> set rs. grps r)"
  by (induction rs rule: alts.induct) (auto simp: alts.simps)

lemma matches_alts:
  "matches ic (alts rs) w g g' \<longleftrightarrow> (\<exists>r \<in> set rs. matches ic r w g g')"
  by (induction rs rule: alts.induct) (auto simp: alts.simps)

lemma matches_SeqE:
  assumes "matches ic (Seq a b) w g g'"
  obtains w1 w2 g1 where "w = w1 @ w2" "matches ic a w1 g g1" "matches ic b w2 g1 g'"
  using assms by auto

lemma matches_seqs_ConsE:
  assumes "matches ic (seqs (a # rs)) w g g'"
  obtains w1 w2 g1 where "w = w1 @ w2" "matches ic a w1 g g1" "matches ic (seqs rs) w2 g1 g'"
  using assms by auto

lemma matches_seqs_Nil: "matches ic (seqs []) w g g' \<longleftrightarrow> w = [] \<and> g' = g"
  by simp

lemma matches_RepE:
  assumes "matches ic (Rep gr mn mx (InSet [a])) w g g'"
  obtains "list_all (atom_match ic a) w" "mn \<le> length w" "within mx (length w)" "g' = g"
  using assms by (auto simp: list_all_iff)

lemma four_words_lits: "[lits ''th'', lits ''st'', lits ''nd'', lits ''rd''] = map lits four_words"
  by (simp add: four_words_def)

lemma lower_four: "\<forall>w \<in> set four_words. lower (str w) = str w"
  by (simp add: four_words_def lower_def str_def is_upper_def)

lemma opt_word_lower:
  assumes "matches True (Opt (alts (map lits ws))) u g g'"
  shows "u = [] \<or> (\<exists>w \<in> set ws. lower u = lower (str w))"
proof (cases "u = []")
  case True
  then show ?thesis by simp
next
  case False
  with assms have "matches True (alts (map lits ws)) u g g'"
    by (simp only: matches.simps) blast
  then obtain w where "w \<in> set ws" "matches True (lits w) u g g'"
    unfolding matches_alts by auto
  then have "w \<in> set ws" "lower u = lower (str w)"
    by (simp_all add: matches_lits lit_at_lower)
  then show ?thesis by blast
qed

declare seqs.simps [simp del]

lemma matches_date:
  assumes "matches True date_re d g g'"
  shows "date_phrase d \<and> g' = g"
proof -
  have "grps date_re = {}"
    by (simp add: date_re_def spaces1_def grps_alts grps_lits grps_seqs)
  with assms have g: "g' = g"
    by (rule matches_nogroups)
  from assms[unfolded date_re_def spaces1_def]
  obtain day r1 g1 where 1: "d = day @ r1" "matches True (Rep True 1 (Some 2) (InSet [Digit])) day g g1"
    and "matches True (seqs [Opt (alts [lits ''th'', lits ''st'', lits ''nd'', lits ''rd'']),
          Rep True 1 None (InSet [Space]), Rep True 1 None (InSet [Word]),
          Rep True 1 None (InSet [Space]), Rep True 4 (Some 4) (InSet [Digit])]) r1 g1 g'"
    by (rule matches_seqs_ConsE)
  from this(3) obtain suffix r2 g2 where 2: "r1 = suffix @ r2"
    and s: "matches True (Opt (alts [lits ''th'', lits ''st'', lits ''nd'', lits ''rd''])) suffix g1 g2"
    and "matches True (seqs [Rep True 1 None (InSet [Space]), Rep True 1 None (InSet [Word]),
          Rep True 1 None (InSet [Space]), Rep True 4 (Some 4) (InSet [Digit])]) r2 g2 g'"
    by (rule matches_seqs_ConsE)
  from this(3) obtain ws1 r3 g3 where 3: "r2 = ws1 @ r3" "matches True (Rep True 1 None (InSet [Space])) ws1 g2 g3"
    and "matches True (seqs [Rep True 1 None (InSet [Word]),
          Rep True 1 None (InSet [Space]), Rep True 4 (Some 4) (InSet [Digit])]) r3 g3 g'"
    by (rule matches_seqs_ConsE)
  from this(3) obtain month r4 g4 where 4: "r3 = month @ r4" "matches True (Rep True 1 None (InSet [Word])) month g3 g4"
    and "matches True (seqs [Rep True 1 None (InSet [Space]), Rep True 4 (Some 4) (InSet [Digit])]) r4 g4 g'"
    by (rule matches_seqs_ConsE)
  from this(3) obtain ws2 r5 g5 where 5: "r4 = ws2 @ r5" "matches True (Rep True 1 None (InSet [Space])) ws2 g4 g5"
    and "matches True (seqs [Rep True 4 (Some 4) (InSet [Digit])]) r5 g5 g'"
    by (rule matches_seqs_ConsE)
  from this(3) obtain year r6 g6 where 6: "r5 = year @ r6" "matches True (Rep True 4 (Some 4) (InSet [Digit])) year g5 g6"
    and "matches True (seqs []) r6 g6 g'"
    by (rule matches_seqs_ConsE)
  then have r6: "r6 = []" by (simp add: matches_seqs_Nil)
  have d: "d = day @ suffix @ ws1 @ month @ ws2 @ year"
    using 1(1) 2 3(1) 4(1) 5(1) 6(1) r6 by simp
  from opt_word_lower[OF s[unfolded four_words_lits]]
  consider "suffix = []" | w where "w \<in> set four_words" "lower suffix = lower (str w)"
    by blast
  then have "lower suffix \<in> {[], str ''th'', str ''st'', str ''nd'', str ''rd''}"
  proof cases
    case 1
    then show ?thesis by (simp add: lower_def)
  next
    case 2
    with lower_four have "lower suffix = str w" by simp
    moreover from 2(1) have "w = ''th'' \<or> w = ''st'' \<or> w = ''nd'' \<or> w = ''rd''"
      by (simp add: four_words_def)
    ultimately show ?thesis by blast
  qed
  moreover from 1(2) have "list_all is_digit day \<and> 1 \<le> length day \<and> length day \<le> 2"
    by (elim matches_RepE) (simp add: list_all_iff)
  moreover from 3(2) have "ws1 \<noteq> [] \<and> list_all is_space ws1"
    by (elim matches_RepE) (auto simp: list_all_iff)
  moreover from 4(2) have "month \<noteq> [] \<and> list_all is_word month"
    by (elim matches_RepE) (auto simp: list_all_iff)
  moreover from 5(2) have "ws2 \<noteq> [] \<and> list_all is_space ws2"
    by (elim matches_RepE) (auto simp: list_all_iff)
  moreover from 6(2) have "list_all is_digit year \<and> length year = 4"
    by (elim matches_RepE) (simp add: list_all_iff)
  ultimately have "d = day @ suffix @ ws1 @ month @ ws2 @ year
        \<and> list_all is_digit day \<and> 1 \<le> length day \<and> length day \<le> 2
        \<and> lower suffix \<in> {[], str ''th'', str ''st'', str ''nd'', str ''rd''}
        \<and> ws1 \<noteq> [] \<and> list_all is_space ws1
        \<and> month \<noteq> [] \<and> list_all is_word month
        \<and> ws2 \<noteq> [] \<and> list_all is_space ws2
        \<and> list_all is_digit year \<and> length year = 4"
    using d by simp
  then have "date_phrase d"
    unfolding date_phrase_def
    by (intro exI[of _ day] exI[of _ suffix] exI[of _ ws1] exI[of _ month] exI[of _ ws2] exI[of _ year])
  with g show ?thesis by simp
qed

lemma matches_OneE:
  assumes "matches ic (One it) w g g'"
  obtains c where "w = [c]" "item_match ic it c" "g' = g"
  using assms by auto

lemma lower1_low:
  assumes "lower1 c = x" "cp x < 97"
  shows "c = x"
proof (rule cp_inj)
  from assms(1) have "cp (lower1 c) = cp x" by simp
  with assms(2) show "cp c = cp x"
    unfolding cp_lower1 by (auto simp: is_upper_def Let_def split: if_splits)
qed

lemma matches_time:
  assumes "matches True time_re tm g g'"
  shows "time_phrase tm \<and> g' = g"
proof -
  have "grps time_re = {}"
    by (simp add: time_re_def spaces0_def digits1_def grps_lits grps_seqs)
  with assms have g: "g' = g"
    by (rule matches_nogroups)
  from assms[unfolded time_re_def spaces0_def digits1_def]
  obtain hour r1 g1 where 1: "tm = hour @ r1" "matches True (Rep True 1 (Some 2) (InSet [Digit])) hour g g1"
    and "matches True (seqs [One (InSet [Lit (Latin CHR '':''), Lit (Latin CHR ''.'')]),
          Rep True 1 None (InSet [Digit]), Rep True 0 None (InSet [Space]),
          One (InSet [Lit (Latin CHR ''A''), Lit (Latin CHR ''P'')]), lits ''M'']) r1 g1 g'"
    by (rule matches_seqs_ConsE)
  from this(3) obtain s1 r2 g2 where 2: "r1 = s1 @ r2"
    "matches True (One (InSet [Lit (Latin CHR '':''), Lit (Latin CHR ''.'')])) s1 g1 g2"
    and "matches True (seqs [Rep True 1 None (InSet [Digit]), Rep True 0 None (InSet [Space]),
          One (InSet [Lit (Latin CHR ''A''), Lit (Latin CHR ''P'')]), lits ''M'']) r2 g2 g'"
    by (rule matches_seqs_ConsE)
  from this(3) obtain minute r3 g3 where 3: "r2 = minute @ r3"
    "matches True (Rep True 1 None (InSet [Digit])) minute g2 g3"
    and "matches True (seqs [Rep True 0 None (InSet [Space]),
          One (InSet [Lit (Latin CHR ''A''), Lit (Latin CHR ''P'')]), lits ''M'']) r3 g3 g'"
    by (rule matches_seqs_ConsE)
  from this(3) obtain ws r4 g4 where 4: "r3 = ws @ r4"
    "matches True (Rep True 0 None (InSet [Space])) ws g3 g4"
    and "matches True (seqs [One (InSet [Lit (Latin CHR ''A''), Lit (Latin CHR ''P'')]), lits ''M'']) r4 g4 g'"
    by (rule matches_seqs_ConsE)
  from this(3) obtain s2 r5 g5 where 5: "r4 = s2 @ r5"
    "matches True (One (InSet [Lit (Latin CHR ''A''), Lit (Latin CHR ''P'')])) s2 g4 g5"
    and "matches True (seqs [lits ''M'']) r5 g5 g'"
    by (rule matches_seqs_ConsE)
  from this(3) obtain s3 r6 g6 where 6: "r5 = s3 @ r6" "matches True (lits ''M'') s3 g5 g6"
    and "matches True (seqs []) r6 g6 g'"
    by (rule matches_seqs_ConsE)
  then have r6: "r6 = []" by (simp add: matches_seqs_Nil)
  from 2(2) obtain sep where sep: "s1 = [sep]" "sep \<in> {Latin CHR '':'', Latin CHR ''.''}"
    by (elim matches_OneE) (auto simp: is_upper_def dest: lower1_low)
  from 5(2) obtain ap where ap: "s2 = [ap]" "lower1 ap \<in> {Latin CHR ''a'', Latin CHR ''p''}"
    by (elim matches_OneE) (auto simp: is_upper_def)
  from 6(2) have "length s3 = 1" "lit_at True ''M'' s3"
    by (simp_all add: matches_lits)
  then obtain m where m: "s3 = [m]" "lower1 m = Latin CHR ''m''"
    by (cases s3) (auto simp: is_upper_def)
  have "tm = hour @ [sep] @ minute @ ws @ [ap, m]"
    using 1(1) 2(1) 3(1) 4(1) 5(1) 6(1) r6 sep(1) ap(1) m(1) by simp
  moreover from 1(2) have "list_all is_digit hour \<and> 1 \<le> length hour \<and> length hour \<le> 2"
    by (elim matches_RepE) (simp add: list_all_iff)
  moreover from 3(2) have "minute \<noteq> [] \<and> list_all is_digit minute"
    by (elim matches_RepE) (auto simp: list_all_iff)
  moreover from 4(2) have "list_all is_space ws"
    by (elim matches_RepE) (auto simp: list_all_iff)
  ultimately have "tm = hour @ [sep] @ minute @ ws @ [ap, m]
        \<and> list_all is_digit hour \<and> 1 \<le> length hour \<and> length hour \<le> 2
        \<and> sep \<in> {Latin CHR '':'', Latin CHR ''.''}
        \<and> minute \<noteq> [] \<and> list_all is_digit minute
        \<and> list_all is_space ws
        \<and> lower1 ap \<in> {Latin CHR ''a'', Latin CHR ''p''} \<and> lower1 m = Latin CHR ''m''"
    using sep(2) ap(2) m(2) by simp
  then have "time_phrase tm"
    unfolding time_phrase_def
    by (intro exI[of _ hour] exI[of _ sep] exI[of _ minute] exI[of _ ws] exI[of _ ap] exI[of _ m])
  with g show ?thesis by simp
qed

lemma matches_datetime:
  assumes "matches True datetime_re w Map.empty g'"
  shows "\<exists>d b tm. w = d @ b @ tm \<and> date_phrase d \<and> time_phrase tm \<and> Latin (CHR 0x0A) \<notin> set b
           \<and> g' 1 = Some d \<and> g' 2 = Some tm"
proof -
  from assms[unfolded datetime_re_def lazy_any_def]
  obtain d r1 g1 where 1: "w = d @ r1" "matches True (Grp 1 date_re) d Map.empty g1"
    and "matches True (seqs [Rep False 0 None Any, Grp 2 time_re]) r1 g1 g'"
    by (rule matches_seqs_ConsE)
  from this(3) obtain b r2 g2 where 2: "r1 = b @ r2" "matches True (Rep False 0 None Any) b g1 g2"
    and "matches True (seqs [Grp 2 time_re]) r2 g2 g'"
    by (rule matches_seqs_ConsE)
  from this(3) obtain tm r3 g3 where 3: "r2 = tm @ r3" "matches True (Grp 2 time_re) tm g2 g3"
    and "matches True (seqs []) r3 g3 g'"
    by (rule matches_seqs_ConsE)
  then have r3: "r3 = []" "g' = g3" by (simp_all add: matches_seqs_Nil)
  from 1(2) matches_date have d: "date_phrase d" "g1 = [1 \<mapsto> d]"
    by auto
  from 2(2) have b: "Latin (CHR 0x0A) \<notin> set b" "g2 = g1"
    by (auto simp: list_all_iff)
  from 3(2) matches_time have t: "time_phrase tm" "g3 = g2(2 \<mapsto> tm)"
    by auto
  have "w = d @ b @ tm"
    using 1(1) 2(1) 3(1) r3(1) by simp
  with d b t r3(2) show ?thesis
    by (intro exI[of _ d] exI[of _ b] exI[of _ tm]) simp
qed

section \<open>Date and time\<close>

text \<open>
  C6. The date and time extractor is all or nothing. When the combined pattern has no
  match in the text the result is the empty string, also when a date phrase alone is
  there. When it has one, the text reads \<open>a @ d @ b @ tm @ c\<close> with \<open>d\<close> a date phrase (one
  or two digits, an optional ordinal ending, white space, a word, white space, four
  digits), \<open>tm\<close> a time phrase (one or two digits, a colon or a full stop, digits, optional
  white space, AM or PM in either case) and no line break between them, and the result is
  \<open>d\<close>, a comma and a space, and \<open>tm\<close>: both phrases, never one alone.
\<close>

theorem datetime_all_or_nothing:
  "(case search True datetime_re t of
      None \<Rightarrow> extract_datetime t = []
    | Some m \<Rightarrow>
        (\<exists>a d b tm c. t = a @ d @ b @ tm @ c \<and> date_phrase d \<and> time_phrase tm
            \<and> Latin (CHR 0x0A) \<notin> set b
            \<and> m_groups m 1 = Some d \<and> m_groups m 2 = Some tm
            \<and> extract_datetime t = d @ str '', '' @ tm))"
proof (cases "search True datetime_re t")
  case None
  then show ?thesis by (simp add: extract_datetime_def)
next
  case (Some m)
  from search_matches[OF Some] obtain a w c g' where
    t: "t = a @ w @ c" and w: "matches True datetime_re w Map.empty g'" and m: "m_groups m = g'(0 \<mapsto> w)"
    by blast
  from matches_datetime[OF w] obtain d b tm where
    "w = d @ b @ tm" "date_phrase d" "time_phrase tm" "Latin (CHR 0x0A) \<notin> set b"
    "g' 1 = Some d" "g' 2 = Some tm"
    by blast
  with t m Some have "t = a @ d @ b @ tm @ c \<and> date_phrase d \<and> time_phrase tm
            \<and> Latin (CHR 0x0A) \<notin> set b
            \<and> m_groups m 1 = Some d \<and> m_groups m 2 = Some tm
            \<and> extract_datetime t = d @ str '', '' @ tm"
    by (simp add: extract_datetime_def fmt_group_def)
  then have "\<exists>a d b tm c. t = a @ d @ b @ tm @ c \<and> date_phrase d \<and> time_phrase tm
            \<and> Latin (CHR 0x0A) \<notin> set b
            \<and> m_groups m 1 = Some d \<and> m_groups m 2 = Some tm
            \<and> extract_datetime t = d @ str '', '' @ tm"
    by blast
  with Some show ?thesis by simp
qed

text \<open>A text with a date and no time gives the empty string; one with both gives both.\<close>

lemma datetime_ex1:
  "extract_datetime (str ''on 12th March 2024 at about 9:30 PM'') = str ''12th March 2024, 9:30 PM''"
  by code_simp

lemma datetime_ex2:
  "search True datetime_re (str ''on 5 March 2024 it rained'') = None"
  by code_simp

lemma datetime_ex3:
  "search True (Grp 1 date_re) (str ''on 5 March 2024 it rained'') \<noteq> None"
  by code_simp

theorem datetime_all_or_nothing_witness:
  "extract_datetime (str ''on 5 March 2024 it rained'') = []
   \<and> search True (Grp 1 date_re) (str ''on 5 March 2024 it rained'') \<noteq> None
   \<and> extract_datetime (str ''on 12th March 2024 at about 9:30 PM'') = str ''12th March 2024, 9:30 PM''"
  using datetime_all_or_nothing[of "str ''on 5 March 2024 it rained''"] datetime_ex1 datetime_ex2 datetime_ex3
  by simp

section \<open>Determinism\<close>







end
